theory Spec2Isabelle
  imports Main "HOL-Library.Word"
begin

unbundle bit_operations_syntax

section \<open>Data model\<close>

text \<open>
  The library works on flat byte buffers. A buffer handed over as a pointer and a length
  is a list of bytes whose length is that length; an index into the list is the distance
  of a C pointer from the start of its buffer. Sizes and pointer distances (\<open>size_t\<close>)
  are natural numbers; \<open>uint32_t\<close> values are 32-bit words, whose arithmetic wraps.
\<close>

type_synonym byte = "8 word"
type_synonym u32 = "32 word"

text \<open>
  The three status messages of the library. The fourth value is not a status of the C
  code: it marks a read or write outside a buffer, which is undefined behaviour in C.
\<close>

datatype status =
    error_dst_is_too_short
  | error_invalid_data
  | error_src_is_too_long
  | out_of_bounds_access

section \<open>LZ4 decode\<close>

text \<open>
  The variables of \<open>sflz4_block_decode\<close>: the destination memory, the write cursor
  \<open>dst_ptr\<close> (relative to \<open>original_dst_ptr\<close>), the remaining capacity \<open>dst_len\<close>, the
  read cursor \<open>src_ptr\<close> and the remaining source length \<open>src_len\<close>.
\<close>

record decode_state =
  dst :: "byte list"
  dst_ptr :: nat
  dst_len :: nat
  src_ptr :: nat
  src_len :: nat

text \<open>
  One pass through the body of the decoder's loop either leaves the function (with a
  status or a byte count, and the destination memory as it is then) or goes round again.
\<close>

datatype flow = Stop "status + nat" "byte list" | Next decode_state

text \<open>\<open>memcpy(dst + d, src + s, n)\<close>, with both ranges checked.\<close>

definition memcpy :: "byte list \<Rightarrow> nat \<Rightarrow> byte list \<Rightarrow> nat \<Rightarrow> nat \<Rightarrow> byte list option" where
  "memcpy d_mem d s_mem s n =
     (if d + n \<le> length d_mem \<and> s + n \<le> length s_mem
      then Some (take d d_mem @ take n (drop s s_mem) @ drop (d + n) d_mem)
      else None)"

text \<open>
  The \<open>while (1)\<close> loop that reads the extension bytes of a length: each byte is added
  to the 32-bit accumulator, and the first byte other than 255 ends the loop.
\<close>

function read_length_extension ::
  "byte list \<Rightarrow> decode_state \<Rightarrow> u32 \<Rightarrow> status + decode_state \<times> u32" where
  "read_length_extension src st len =
     (if src_len st = 0 then Inl error_invalid_data
      else if length src \<le> src_ptr st then Inl out_of_bounds_access
      else
        let s = (ucast (src ! src_ptr st) :: u32);
            st' = st\<lparr>src_ptr := src_ptr st + 1, src_len := src_len st - 1\<rparr>;
            len' = len + s
        in if s \<noteq> 255 then Inr (st', len') else read_length_extension src st' len')"
  by pat_completeness auto
termination
  by (relation "measure (\<lambda>(src, st, len). src_len st)") auto

declare read_length_extension.simps [simp del]

text \<open>
  The match copy \<open>for (from = dst_ptr - copy_off; copy_len > 0; copy_len--)
  *dst_ptr++ = *from++\<close>: one byte at a time, in forward order, inside the destination.
\<close>

fun copy_match :: "byte list \<Rightarrow> nat \<Rightarrow> nat \<Rightarrow> nat \<Rightarrow> (byte list \<times> nat) option" where
  "copy_match d_mem dp from 0 = Some (d_mem, dp)"
| "copy_match d_mem dp from (Suc copy_len) =
     (if from < length d_mem \<and> dp < length d_mem
      then copy_match (d_mem[dp := d_mem ! from]) (dp + 1) (from + 1) copy_len
      else None)"

text \<open>Lines 213 to 244: the literal length, the literals, and the end-of-block check.\<close>

definition decode_literals :: "byte list \<Rightarrow> u32 \<Rightarrow> decode_state \<Rightarrow> flow" where
  "decode_literals src token st =
     (let literal_len = drop_bit 4 token in
      if literal_len > 0 then
        (case (if literal_len = 15 then read_length_extension src st literal_len
               else Inr (st, literal_len)) of
           Inl e \<Rightarrow> Stop (Inl e) (dst st)
         | Inr (st1, literal_len) \<Rightarrow>
             if unat literal_len > src_len st1 then Stop (Inl error_invalid_data) (dst st1)
             else if unat literal_len > dst_len st1 then Stop (Inl error_dst_is_too_short) (dst st1)
             else
               (case memcpy (dst st1) (dst_ptr st1) src (src_ptr st1) (unat literal_len) of
                  None \<Rightarrow> Stop (Inl out_of_bounds_access) (dst st1)
                | Some d \<Rightarrow>
                    let st2 = st1\<lparr>dst := d,
                                  dst_ptr := dst_ptr st1 + unat literal_len,
                                  dst_len := dst_len st1 - unat literal_len,
                                  src_ptr := src_ptr st1 + unat literal_len,
                                  src_len := src_len st1 - unat literal_len\<rparr>
                    in if src_len st2 = 0 then Stop (Inr (dst_ptr st2)) (dst st2)
                       else Next st2))
      else Next st)"

text \<open>Lines 246 to 279: the match offset, the match length, and the match copy.\<close>

definition decode_match :: "byte list \<Rightarrow> u32 \<Rightarrow> decode_state \<Rightarrow> flow" where
  "decode_match src token st =
     (if src_len st < 2 then Stop (Inl error_invalid_data) (dst st)
      else if length src < src_ptr st + 2 then Stop (Inl out_of_bounds_access) (dst st)
      else
        let copy_off = (ucast (src ! src_ptr st) :: u32)
                         OR push_bit 8 (ucast (src ! (src_ptr st + 1)) :: u32);
            st1 = st\<lparr>src_ptr := src_ptr st + 2, src_len := src_len st - 2\<rparr>
        in
          if copy_off = 0 \<or> unat copy_off > dst_ptr st1
          then Stop (Inl error_invalid_data) (dst st1)
          else
            let copy_len = (token AND 15) + 4 in
            (case (if copy_len = 19 then read_length_extension src st1 copy_len
                   else Inr (st1, copy_len)) of
               Inl e \<Rightarrow> Stop (Inl e) (dst st1)
             | Inr (st2, copy_len) \<Rightarrow>
                 if dst_len st2 < unat copy_len
                 then Stop (Inl error_dst_is_too_short) (dst st2)
                 else
                   (case copy_match (dst st2) (dst_ptr st2)
                           (dst_ptr st2 - unat copy_off) (unat copy_len) of
                      None \<Rightarrow> Stop (Inl out_of_bounds_access) (dst st2)
                    | Some (d, dp) \<Rightarrow>
                        Next (st2\<lparr>dst := d, dst_ptr := dp,
                                  dst_len := dst_len st2 - unat copy_len\<rparr>))))"

lemma read_length_extension_src_len:
  "read_length_extension src st len = Inr (st', len') \<Longrightarrow> src_len st' < src_len st"
proof (induction src st len rule: read_length_extension.induct)
  case (1 src st len)
  from "1.prems" have pos: "src_len st \<noteq> 0" and inb: "\<not> length src \<le> src_ptr st"
    by (auto simp: read_length_extension.simps [of src st len] split: if_splits)
  show ?case
  proof (cases "(ucast (src ! src_ptr st) :: u32) \<noteq> 255")
    case True
    with "1.prems" pos inb show ?thesis
      by (auto simp: read_length_extension.simps [of src st len] Let_def)
  next
    case False
    with "1.prems" pos inb have
      "read_length_extension src (st\<lparr>src_ptr := src_ptr st + 1, src_len := src_len st - 1\<rparr>)
         (len + ucast (src ! src_ptr st)) = Inr (st', len')"
      by (simp add: read_length_extension.simps [of src st len] Let_def)
    with "1.IH" [OF pos inb refl refl refl] False
    have "src_len st' < src_len (st\<lparr>src_ptr := src_ptr st + 1, src_len := src_len st - 1\<rparr>)"
      by simp
    then show ?thesis by simp
  qed
qed

lemma decode_literals_src_len:
  "decode_literals src token st = Next st' \<Longrightarrow> src_len st' \<le> src_len st"
  by (auto simp: decode_literals_def Let_def
           split: if_splits sum.splits option.splits prod.splits
           dest!: read_length_extension_src_len)

lemma decode_match_src_len:
  "decode_match src token st = Next st' \<Longrightarrow> src_len st' \<le> src_len st"
  by (auto simp: decode_match_def Let_def
           split: if_splits sum.splits option.splits prod.splits
           dest!: read_length_extension_src_len)

text \<open>The loop \<open>while (src_len > 0)\<close>; leaving it at its head is \<open>fail_invalid_data\<close>.\<close>

function decode_loop :: "byte list \<Rightarrow> decode_state \<Rightarrow> (status + nat) \<times> byte list" where
  "decode_loop src st =
     (if src_len st > 0 then
        if length src \<le> src_ptr st then (Inl out_of_bounds_access, dst st)
        else
          let token = (ucast (src ! src_ptr st) :: u32);
              st0 = st\<lparr>src_ptr := src_ptr st + 1, src_len := src_len st - 1\<rparr>
          in (case decode_literals src token st0 of
                Stop r d \<Rightarrow> (r, d)
              | Next st1 \<Rightarrow>
                  (case decode_match src token st1 of
                     Stop r d \<Rightarrow> (r, d)
                   | Next st2 \<Rightarrow> decode_loop src st2))
      else (Inl error_invalid_data, dst st))"
  by pat_completeness auto
termination decode_loop
proof (relation "measure (\<lambda>(src, st). src_len st)")
  show "wf (measure (\<lambda>(src, st). src_len st))" by simp
next
  fix src :: "byte list" and st :: decode_state and x xa x2 x2a
  assume pos: "0 < src_len st"
    and x: "x = (ucast (src ! src_ptr st) :: u32)"
    and xa: "xa = st\<lparr>src_ptr := src_ptr st + 1, src_len := src_len st - 1\<rparr>"
    and l: "decode_literals src x xa = Next x2"
    and m: "decode_match src x x2 = Next x2a"
  from decode_literals_src_len [OF l] decode_match_src_len [OF m] xa pos
  show "((src, x2a), (src, st)) \<in> measure (\<lambda>(src, st). src_len st)"
    by simp
qed

declare decode_loop.simps [simp del]

text \<open>\<open>sflz4_block_decode\<close>: the length ceiling, then the loop from the start of both buffers.\<close>

definition SFLZ4_LZ4_BLOCK_DECODE_MAX_INCL_SRC_LEN :: nat where
  "SFLZ4_LZ4_BLOCK_DECODE_MAX_INCL_SRC_LEN = 0x00FFFFFF"

definition sflz4_block_decode :: "byte list \<Rightarrow> byte list \<Rightarrow> (status + nat) \<times> byte list" where
  "sflz4_block_decode dst_buf src =
     (if length src > SFLZ4_LZ4_BLOCK_DECODE_MAX_INCL_SRC_LEN
      then (Inl error_src_is_too_long, dst_buf)
      else decode_loop src
             \<lparr>dst = dst_buf, dst_ptr = 0, dst_len = length dst_buf,
              src_ptr = 0, src_len = length src\<rparr>)"

section \<open>LZ4 encode\<close>

subsection \<open>Private helpers\<close>

text \<open>The four bytes at \<open>p\<close> as a little-endian 32-bit value.\<close>

definition sflz4_private_peek_u32le :: "byte list \<Rightarrow> nat \<Rightarrow> u32" where
  "sflz4_private_peek_u32le src p =
     push_bit 0 (ucast (src ! p)) OR push_bit 8 (ucast (src ! (p + 1))) OR
     push_bit 16 (ucast (src ! (p + 2))) OR push_bit 24 (ucast (src ! (p + 3)))"

text \<open>\<open>SFLZ4_HASH_TABLE_SHIFT\<close> is 12; the product wraps modulo \<open>2 ^ 32\<close>.\<close>

definition SFLZ4_HASH_TABLE_SHIFT :: nat where
  "SFLZ4_HASH_TABLE_SHIFT = 12"

definition sflz4_private_hash :: "u32 \<Rightarrow> u32" where
  "sflz4_private_hash x = drop_bit (32 - SFLZ4_HASH_TABLE_SHIFT) (x * 2654435761)"

text \<open>
  \<open>sflz4_private_longest_common_prefix\<close>: four bytes at a time while at least four remain
  before \<open>p_limit\<close>, then byte by byte. Every caller passes \<open>p \<le> p_limit\<close>.
\<close>

function lcp_words :: "byte list \<Rightarrow> nat \<Rightarrow> nat \<Rightarrow> nat \<Rightarrow> nat \<times> nat \<times> nat" where
  "lcp_words src p q n =
     (if n \<ge> 4 \<and> sflz4_private_peek_u32le src p = sflz4_private_peek_u32le src q
      then lcp_words src (p + 4) (q + 4) (n - 4)
      else (p, q, n))"
  by pat_completeness auto
termination
  by (relation "measure (\<lambda>(src, p, q, n). n)") auto

declare lcp_words.simps [simp del]

function lcp_bytes :: "byte list \<Rightarrow> nat \<Rightarrow> nat \<Rightarrow> nat \<Rightarrow> nat \<times> nat \<times> nat" where
  "lcp_bytes src p q n =
     (if n > 0 \<and> src ! p = src ! q
      then lcp_bytes src (p + 1) (q + 1) (n - 1)
      else (p, q, n))"
  by pat_completeness auto
termination
  by (relation "measure (\<lambda>(src, p, q, n). n)") auto

declare lcp_bytes.simps [simp del]

definition sflz4_private_longest_common_prefix :: "byte list \<Rightarrow> nat \<Rightarrow> nat \<Rightarrow> nat \<Rightarrow> nat" where
  "sflz4_private_longest_common_prefix src p q p_limit =
     (let original_p = p;
          n = p_limit - p;
          (p1, q1, n1) = lcp_words src p q n;
          (p2, q2, n2) = lcp_bytes src p1 q1 n1
      in p2 - original_p)"

subsection \<open>Worst-case destination length\<close>

definition SFLZ4_LZ4_BLOCK_ENCODE_MAX_INCL_SRC_LEN :: nat where
  "SFLZ4_LZ4_BLOCK_ENCODE_MAX_INCL_SRC_LEN = 0x7E000000"

definition sflz4_block_encode_worst_case_dst_len :: "nat \<Rightarrow> status + nat" where
  "sflz4_block_encode_worst_case_dst_len n =
     (if n > SFLZ4_LZ4_BLOCK_ENCODE_MAX_INCL_SRC_LEN then Inl error_src_is_too_long
      else Inr (n + (n div 255) + 16))"

subsection \<open>The encoder\<close>

text \<open>
  The encoder checks the destination's capacity once, before it writes, and then only
  advances \<open>dp\<close>. Its destination is modelled by the bytes written so far,
  \<open>dst_ptr[0 .. dp)\<close>: \<open>*dp++ = b\<close> appends \<open>b\<close>, and \<open>dp - dst_ptr\<close> is the length.
\<close>

record encode_state =
  written :: "byte list"
  sp :: nat
  literal_start :: nat
  hash_table :: "u32 \<Rightarrow> u32"

datatype encode_flow = Final_literals encode_state | Search_again encode_state

text \<open>\<open>for (; n >= 255; n -= 255) *dp++ = 0xFF; *dp++ = (uint8_t)n\<close>.\<close>

function emit_length_extension :: "nat \<Rightarrow> byte list" where
  "emit_length_extension n =
     (if n \<ge> 255 then 0xFF # emit_length_extension (n - 255) else [of_nat n])"
  by pat_completeness auto
termination
  by (relation "measure (\<lambda>n. n)") auto

declare emit_length_extension.simps [simp del]

text \<open>
  Half of the token (the literal length in its high nibble), the extension bytes of the
  literal length, and the literals themselves. The code has this twice: before a match
  and at \<open>final_literals\<close>.
\<close>

definition emit_literals :: "byte list \<Rightarrow> nat \<Rightarrow> nat \<Rightarrow> byte list \<Rightarrow> byte list" where
  "emit_literals src lit_start literal_len w =
     w @ (if literal_len < 15 then [of_nat (push_bit 4 literal_len)]
          else 0xF0 # emit_length_extension (literal_len - 15))
       @ take literal_len (drop lit_start src)"

text \<open>
  The \<open>do ... while\<close> loop that looks for a match. \<open>None\<close> is \<open>goto final_literals\<close>;
  otherwise the result is \<open>sp\<close>, \<open>match\<close> and the hash table.
\<close>

function find_match ::
  "byte list \<Rightarrow> nat \<Rightarrow> (u32 \<Rightarrow> u32) \<Rightarrow> nat \<Rightarrow> nat \<Rightarrow> nat \<Rightarrow> u32
     \<Rightarrow> (nat \<times> nat \<times> (u32 \<Rightarrow> u32)) option" where
  "find_match src final_literals_limit ht next_sp step step_counter next_hash =
     (let sp' = next_sp;
          next_sp' = next_sp + step;
          step' = drop_bit 6 step_counter;
          step_counter' = step_counter + 1
      in if next_sp' > final_literals_limit then None
         else
           let match = unat (ht next_hash);
               next_hash' = sflz4_private_hash (sflz4_private_peek_u32le src next_sp');
               ht' = ht(next_hash := of_nat sp')
           in if int sp' - int match > 0xFFFF \<or>
                 sflz4_private_peek_u32le src sp' \<noteq> sflz4_private_peek_u32le src match
              then find_match src final_literals_limit ht' next_sp' step' step_counter' next_hash'
              else Some (sp', match, ht'))"
  by pat_completeness auto
termination
proof (relation "measures [\<lambda>(src, fll, ht, next_sp, step, step_counter, next_hash). fll + 1 - next_sp,
                           \<lambda>(src, fll, ht, next_sp, step, step_counter, next_hash). 64 - step_counter,
                           \<lambda>(src, fll, ht, next_sp, step, step_counter, next_hash). if step = 0 then 1 else 0]",
       goal_cases)
  case 1
  show ?case by simp
next
  case (2 src fll ht next_sp step step_counter next_hash)
  have "step_counter div 64 = 0 \<Longrightarrow> step_counter < 64"
    by (simp add: div_eq_0_iff)
  with 2 show ?case
    by (auto simp: drop_bit_eq_div)
qed

declare find_match.simps [simp del]

text \<open>Extending the match backwards, not past \<open>literal_start\<close> or the start of the source.\<close>

function extend_backwards :: "byte list \<Rightarrow> nat \<Rightarrow> nat \<Rightarrow> nat \<Rightarrow> nat \<times> nat" where
  "extend_backwards src lit_start sp' match =
     (if sp' > lit_start \<and> match > 0 \<and> src ! (sp' - 1) = src ! (match - 1)
      then extend_backwards src lit_start (sp' - 1) (match - 1)
      else (sp', match))"
  by pat_completeness auto
termination
  by (relation "measure (\<lambda>(src, lit_start, sp', match). sp')") auto

declare extend_backwards.simps [simp del]

text \<open>
  The first half of the body of the inner \<open>while (1)\<close> loop: the offset, the match
  length (fixing up the token at index \<open>token\<close>), and the new \<open>sp\<close> and
  \<open>literal_start\<close>.
\<close>

definition emit_match :: "byte list \<Rightarrow> nat \<Rightarrow> nat \<Rightarrow> encode_state \<Rightarrow> encode_state" where
  "emit_match src token match st =
     (let match_limit = length src - 5;
          copy_off = sp st - match;
          w1 = written st @ [of_nat (drop_bit 0 copy_off), of_nat (drop_bit 8 copy_off)];
          adj_copy_len =
            sflz4_private_longest_common_prefix src (4 + sp st) (4 + match) match_limit;
          w2 = (if adj_copy_len < 15 then w1[token := (w1 ! token) OR of_nat adj_copy_len]
                else (w1[token := (w1 ! token) OR 0x0F])
                       @ emit_length_extension (adj_copy_len - 15));
          sp' = sp st + (4 + adj_copy_len)
      in st\<lparr>written := w2, sp := sp', literal_start := sp'\<rparr>)"

text \<open>
  The second half: the hash table entry for \<open>sp - 2\<close>, the entry for \<open>sp\<close>, and the
  test whether a match follows immediately (\<open>Some match\<close>) or not (\<open>break\<close>).
\<close>

definition probe_next_match :: "byte list \<Rightarrow> encode_state \<Rightarrow> encode_state \<times> nat option" where
  "probe_next_match src st =
     (let ht1 = (hash_table st)
                  (sflz4_private_hash (sflz4_private_peek_u32le src (sp st - 2))
                     := of_nat (sp st - 2));
          h = sflz4_private_hash (sflz4_private_peek_u32le src (sp st));
          old_offset = ht1 h;
          new_offset = (of_nat (sp st) :: u32);
          ht2 = ht1(h := new_offset);
          match = unat old_offset
      in (st\<lparr>hash_table := ht2\<rparr>,
          if new_offset - old_offset > 0xFFFF \<or>
             sflz4_private_peek_u32le src (sp st) \<noteq> sflz4_private_peek_u32le src match
          then None else Some match))"

text \<open>
  The inner \<open>while (1)\<close> loop. It is left for \<open>final_literals\<close> when \<open>sp\<close> has reached
  \<open>final_literals_limit\<close>, and by \<open>break\<close> when no match follows immediately; otherwise
  the next token is written as 0 and the loop goes round.
\<close>

function emit_matches ::
  "byte list \<Rightarrow> nat \<Rightarrow> nat \<Rightarrow> encode_state \<Rightarrow> encode_flow" where
  "emit_matches src token match st =
     (let final_literals_limit = length src - 11;
          st1 = emit_match src token match st
      in if sp st1 \<ge> final_literals_limit then Final_literals st1
         else
           (case probe_next_match src st1 of
              (st2, None) \<Rightarrow> Search_again st2
            | (st2, Some match') \<Rightarrow>
                emit_matches src (length (written st2)) match'
                  (st2\<lparr>written := written st2 @ [0]\<rparr>)))"
  by pat_completeness auto
termination
  by (relation "measure (\<lambda>(src, token, match, st). length src - 11 - sp st)")
     (auto simp: Let_def emit_match_def probe_next_match_def)

declare emit_matches.simps [simp del]

subsection \<open>Facts about the helpers, for the termination of the outer loop\<close>

lemma le_bytes_eq_iff:
  fixes a b c d a' b' c' d' :: byte
  shows "((push_bit 0 (ucast a) OR push_bit 8 (ucast b) OR push_bit 16 (ucast c) OR push_bit 24 (ucast d)) :: u32)
       = (push_bit 0 (ucast a') OR push_bit 8 (ucast b') OR push_bit 16 (ucast c') OR push_bit 24 (ucast d'))
     \<longleftrightarrow> a = a' \<and> b = b' \<and> c = c' \<and> d = d'"
    (is "?w = ?w' \<longleftrightarrow> _")
proof
  assume eq: "?w = ?w'"
  have a: "ucast ?w = a" by (rule bit_word_eqI) (auto simp: bit_simps dest: bit_imp_le_length)
  have a': "ucast ?w' = a'" by (rule bit_word_eqI) (auto simp: bit_simps dest: bit_imp_le_length)
  have b: "ucast (drop_bit 8 ?w) = b" by (rule bit_word_eqI) (auto simp: bit_simps dest: bit_imp_le_length)
  have b': "ucast (drop_bit 8 ?w') = b'" by (rule bit_word_eqI) (auto simp: bit_simps dest: bit_imp_le_length)
  have c: "ucast (drop_bit 16 ?w) = c" by (rule bit_word_eqI) (auto simp: bit_simps dest: bit_imp_le_length)
  have c': "ucast (drop_bit 16 ?w') = c'" by (rule bit_word_eqI) (auto simp: bit_simps dest: bit_imp_le_length)
  have d: "ucast (drop_bit 24 ?w) = d" by (rule bit_word_eqI) (auto simp: bit_simps dest: bit_imp_le_length)
  have d': "ucast (drop_bit 24 ?w') = d'" by (rule bit_word_eqI) (auto simp: bit_simps dest: bit_imp_le_length)
  from a a' b b' c c' d d' eq show "a = a' \<and> b = b' \<and> c = c' \<and> d = d'"
    by metis
qed simp

lemma peek_u32le_eq_iff:
  "sflz4_private_peek_u32le src p = sflz4_private_peek_u32le src q \<longleftrightarrow>
     src ! p = src ! q \<and> src ! (p + 1) = src ! (q + 1) \<and>
     src ! (p + 2) = src ! (q + 2) \<and> src ! (p + 3) = src ! (q + 3)"
  unfolding sflz4_private_peek_u32le_def by (rule le_bytes_eq_iff)


lemma peek_u32le_eq_nth:
  assumes "sflz4_private_peek_u32le src p = sflz4_private_peek_u32le src q" and "i < 4"
  shows "src ! (p + i) = src ! (q + i)"
proof -
  from assms(2) consider "i = 0" | "i = 1" | "i = 2" | "i = 3" by linarith
  then show ?thesis
    using assms(1) unfolding peek_u32le_eq_iff by cases simp_all
qed

lemma find_match_Some:
  "find_match src fll ht next_sp step step_counter next_hash = Some (sp1, m1, ht1) \<Longrightarrow>
     next_sp \<le> sp1 \<and> sp1 \<le> fll \<and>
     sflz4_private_peek_u32le src sp1 = sflz4_private_peek_u32le src m1 \<and>
     int sp1 - int m1 \<le> 0xFFFF"
proof (induction src fll ht next_sp step step_counter next_hash rule: find_match.induct)
  case (1 src fll ht next_sp step step_counter next_hash)
  from "1.prems" have le: "\<not> fll < next_sp + step"
    by (auto simp: find_match.simps [of src fll ht next_sp step step_counter next_hash] Let_def
             split: if_splits)
  show ?case
  proof (cases "int next_sp - int (unat (ht next_hash)) > 0xFFFF \<or>
                sflz4_private_peek_u32le src next_sp \<noteq>
                sflz4_private_peek_u32le src (unat (ht next_hash))")
    case True
    with "1.prems" le have
      "find_match src fll (ht(next_hash := of_nat next_sp)) (next_sp + step)
         (drop_bit 6 step_counter) (step_counter + 1)
         (sflz4_private_hash (sflz4_private_peek_u32le src (next_sp + step))) = Some (sp1, m1, ht1)"
      by (simp add: find_match.simps [of src fll ht next_sp step step_counter next_hash] Let_def)
    from "1.IH" [OF refl refl refl refl le refl refl refl True this]
    show ?thesis by simp
  next
    case False
    with "1.prems" le have "sp1 = next_sp" "m1 = unat (ht next_hash)"
      by (simp_all add: find_match.simps [of src fll ht next_sp step step_counter next_hash] Let_def)
    with False le show ?thesis by simp
  qed
qed

lemma extend_backwards_spec:
  "extend_backwards src ls sp1 m1 = (sp2, m2) \<Longrightarrow>
     \<exists>k. sp1 = sp2 + k \<and> m1 = m2 + k \<and> (\<forall>j<k. src ! (sp2 + j) = src ! (m2 + j)) \<and>
         (ls \<le> sp1 \<longrightarrow> ls \<le> sp2)"
proof (induction src ls sp1 m1 rule: extend_backwards.induct)
  case (1 src ls sp1 m1)
  show ?case
  proof (cases "sp1 > ls \<and> m1 > 0 \<and> src ! (sp1 - 1) = src ! (m1 - 1)")
    case True
    with "1.prems" have "extend_backwards src ls (sp1 - 1) (m1 - 1) = (sp2, m2)"
      by (simp add: extend_backwards.simps [of src ls sp1 m1])
    from "1.IH" [OF True this] obtain k where
      k: "sp1 - 1 = sp2 + k" "m1 - 1 = m2 + k" "\<forall>j<k. src ! (sp2 + j) = src ! (m2 + j)"
         "ls \<le> sp1 - 1 \<longrightarrow> ls \<le> sp2"
      by blast
    have "\<forall>j<Suc k. src ! (sp2 + j) = src ! (m2 + j)"
    proof (intro allI impI)
      fix j assume "j < Suc k"
      then consider "j < k" | "j = k" by linarith
      then show "src ! (sp2 + j) = src ! (m2 + j)"
      proof cases
        case 1 with k(3) show ?thesis by simp
      next
        case 2 with True k(1,2) show ?thesis by simp
      qed
    qed
    moreover from True k have "sp1 = sp2 + Suc k" "m1 = m2 + Suc k" "ls \<le> sp2" by auto
    ultimately show ?thesis by blast
  next
    case False
    then have "extend_backwards src ls sp1 m1 = (sp1, m1)"
      by (subst extend_backwards.simps) (rule if_not_P)
    with "1.prems" show ?thesis by simp
  qed
qed

lemma lcp_words_spec:
  "lcp_words src p q n = (p', q', n') \<Longrightarrow>
     \<exists>m. p' = p + m \<and> q' = q + m \<and> n = n' + m \<and> (\<forall>j<m. src ! (p + j) = src ! (q + j))"
proof (induction src p q n rule: lcp_words.induct)
  case (1 src p q n)
  show ?case
  proof (cases "n \<ge> 4 \<and> sflz4_private_peek_u32le src p = sflz4_private_peek_u32le src q")
    case True
    with "1.prems" have "lcp_words src (p + 4) (q + 4) (n - 4) = (p', q', n')"
      by (simp add: lcp_words.simps [of src p q n])
    from "1.IH" [OF True this] obtain m where
      m: "p' = p + 4 + m" "q' = q + 4 + m" "n - 4 = n' + m"
         "\<forall>j<m. src ! (p + 4 + j) = src ! (q + 4 + j)"
      by blast
    from True have four: "src ! p = src ! q" "src ! (p + 1) = src ! (q + 1)"
        "src ! (p + 2) = src ! (q + 2)" "src ! (p + 3) = src ! (q + 3)"
      by (simp_all add: peek_u32le_eq_iff)
    have "\<forall>j<4 + m. src ! (p + j) = src ! (q + j)"
    proof (intro allI impI)
      fix j assume j: "j < 4 + m"
      consider "j = 0" | "j = 1" | "j = 2" | "j = 3" | "j \<ge> 4" by linarith
      then show "src ! (p + j) = src ! (q + j)"
      proof cases
        case 5
        with j have "j - 4 < m" by simp
        with m(4) have "src ! (p + 4 + (j - 4)) = src ! (q + 4 + (j - 4))" by blast
        with 5 show ?thesis by simp
      qed (use four in simp_all)
    qed
    moreover from True m have "p' = p + (4 + m)" "q' = q + (4 + m)" "n = n' + (4 + m)" by auto
    ultimately show ?thesis by blast
  next
    case False
    with "1.prems" have "p' = p" "q' = q" "n' = n"
      by (simp_all add: lcp_words.simps [of src p q n])
    then show ?thesis by simp
  qed
qed

lemma lcp_bytes_spec:
  "lcp_bytes src p q n = (p', q', n') \<Longrightarrow>
     \<exists>m. p' = p + m \<and> q' = q + m \<and> n = n' + m \<and> (\<forall>j<m. src ! (p + j) = src ! (q + j)) \<and>
         (n' > 0 \<longrightarrow> src ! p' \<noteq> src ! q')"
proof (induction src p q n rule: lcp_bytes.induct)
  case (1 src p q n)
  show ?case
  proof (cases "n > 0 \<and> src ! p = src ! q")
    case True
    with "1.prems" have "lcp_bytes src (p + 1) (q + 1) (n - 1) = (p', q', n')"
      by (simp add: lcp_bytes.simps [of src p q n])
    from "1.IH" [OF True this] obtain m where
      m: "p' = p + 1 + m" "q' = q + 1 + m" "n - 1 = n' + m"
         "\<forall>j<m. src ! (p + 1 + j) = src ! (q + 1 + j)" "n' > 0 \<longrightarrow> src ! p' \<noteq> src ! q'"
      by blast
    have "\<forall>j<Suc m. src ! (p + j) = src ! (q + j)"
    proof (intro allI impI)
      fix j assume j: "j < Suc m"
      show "src ! (p + j) = src ! (q + j)"
      proof (cases j)
        case 0 with True show ?thesis by simp
      next
        case (Suc i)
        with j m(4) have "src ! (p + 1 + i) = src ! (q + 1 + i)" by simp
        with Suc show ?thesis by simp
      qed
    qed
    moreover from True m have "p' = p + Suc m" "q' = q + Suc m" "n = n' + Suc m" by auto
    ultimately show ?thesis using m(5) by blast
  next
    case False
    with "1.prems" have "p' = p" "q' = q" "n' = n"
      by (simp_all add: lcp_bytes.simps [of src p q n])
    with False show ?thesis by auto
  qed
qed

lemma longest_common_prefix_spec:
  assumes "r = sflz4_private_longest_common_prefix src p q p_limit"
  shows "r \<le> p_limit - p \<and> (\<forall>j<r. src ! (p + j) = src ! (q + j)) \<and>
         (r < p_limit - p \<longrightarrow> src ! (p + r) \<noteq> src ! (q + r))"
proof -
  obtain p1 q1 n1 where w: "lcp_words src p q (p_limit - p) = (p1, q1, n1)"
    by (metis prod_cases3)
  obtain p2 q2 n2 where b: "lcp_bytes src p1 q1 n1 = (p2, q2, n2)"
    by (metis prod_cases3)
  from lcp_words_spec [OF w] obtain m1 where
    m1: "p1 = p + m1" "q1 = q + m1" "p_limit - p = n1 + m1" "\<forall>j<m1. src ! (p + j) = src ! (q + j)"
    by blast
  from lcp_bytes_spec [OF b] obtain m2 where
    m2: "p2 = p1 + m2" "q2 = q1 + m2" "n1 = n2 + m2" "\<forall>j<m2. src ! (p1 + j) = src ! (q1 + j)"
        "n2 > 0 \<longrightarrow> src ! p2 \<noteq> src ! q2"
    by blast
  from assms w b have r: "r = p2 - p"
    by (simp add: sflz4_private_longest_common_prefix_def Let_def)
  with m1 m2 have r': "r = m1 + m2" by simp
  have "\<forall>j<r. src ! (p + j) = src ! (q + j)"
  proof (intro allI impI)
    fix j assume j: "j < r"
    show "src ! (p + j) = src ! (q + j)"
    proof (cases "j < m1")
      case True with m1(4) show ?thesis by simp
    next
      case False
      with j r' have "j - m1 < m2" by simp
      with m2(4) have "src ! (p1 + (j - m1)) = src ! (q1 + (j - m1))" by blast
      with False m1(1,2) show ?thesis by simp
    qed
  qed
  moreover from r' m1 m2 have "r \<le> p_limit - p" by simp
  moreover have "r < p_limit - p \<longrightarrow> src ! (p + r) \<noteq> src ! (q + r)"
  proof
    assume "r < p_limit - p"
    with r' m1(3) m2(3) have "n2 > 0" by simp
    with m2(5) have "src ! p2 \<noteq> src ! q2" by simp
    with m1(1,2) m2(1,2) r' show "src ! (p + r) \<noteq> src ! (q + r)" by (simp add: add.assoc)
  qed
  ultimately show ?thesis by blast
qed

lemma longest_common_prefix_ge:
  assumes "\<forall>j<k. src ! (p + j) = src ! (q + j)" and "k \<le> p_limit - p"
  shows "k \<le> sflz4_private_longest_common_prefix src p q p_limit"
proof (rule ccontr)
  let ?r = "sflz4_private_longest_common_prefix src p q p_limit"
  assume "\<not> k \<le> ?r"
  then have lt: "?r < k" by simp
  with assms(2) have "?r < p_limit - p" by simp
  with longest_common_prefix_spec [OF refl, of src p q p_limit]
  have "src ! (p + ?r) \<noteq> src ! (q + ?r)" by blast
  with assms(1) lt show False by blast
qed

lemma sp_emit_match:
  "sp (emit_match src token match st) =
     sp st + 4 + sflz4_private_longest_common_prefix src (4 + sp st) (4 + match) (length src - 5)"
  by (simp add: emit_match_def Let_def)

lemma sp_probe_next_match: "sp (fst (probe_next_match src st)) = sp st"
  by (simp add: probe_next_match_def Let_def)

lemma emit_matches_Search_again:
  "emit_matches src token match st = Search_again st' \<Longrightarrow>
     sp (emit_match src token match st) \<le> sp st' \<and> sp st' < length src - 11"
proof (induction src token match st rule: emit_matches.induct)
  case (1 src token match st)
  let ?st1 = "emit_match src token match st"
  from "1.prems" have lt: "\<not> sp ?st1 \<ge> length src - 11"
    by (auto simp: emit_matches.simps [of src token match st] Let_def split: if_splits)
  obtain st2 m where p: "probe_next_match src ?st1 = (st2, m)"
    by (cases "probe_next_match src ?st1")
  then have sp2: "sp st2 = sp ?st1"
    using sp_probe_next_match [of src ?st1] by simp
  show ?case
  proof (cases m)
    case None
    with "1.prems" lt p have "st' = st2"
      by (simp add: emit_matches.simps [of src token match st] Let_def)
    with sp2 lt show ?thesis by simp
  next
    case (Some match')
    with "1.prems" lt p have
      "emit_matches src (length (written st2)) match' (st2\<lparr>written := written st2 @ [0]\<rparr>)
         = Search_again st'"
      by (simp add: emit_matches.simps [of src token match st] Let_def)
    from "1.IH" [OF refl refl lt p [symmetric] _ this] Some
    have "sp (emit_match src (length (written st2)) match' (st2\<lparr>written := written st2 @ [0]\<rparr>))
            \<le> sp st' \<and> sp st' < length src - 11"
      by simp
    with sp2 show ?thesis by (simp add: sp_emit_match)
  qed
qed


text \<open>
  The outer \<open>while (1)\<close> loop of the encoder, entered when \<open>src_len > 12\<close>. It
  returns the state with which \<open>final_literals\<close> is reached.
\<close>

function encode_loop :: "byte list \<Rightarrow> encode_state \<Rightarrow> encode_state" where
  "encode_loop src st =
     (let final_literals_limit = length src - 11;
          step = 1;
          step_counter = 2 ^ 6;
          next_sp = sp st + 1;
          next_hash = sflz4_private_hash (sflz4_private_peek_u32le src next_sp)
      in case find_match src final_literals_limit (hash_table st) next_sp step step_counter
                next_hash of
           None \<Rightarrow> st
         | Some (sp1, match1, ht1) \<Rightarrow>
             (case extend_backwards src (literal_start st) sp1 match1 of
                (sp2, match2) \<Rightarrow>
                  let token = length (written st);
                      literal_len = sp2 - literal_start st;
                      w = emit_literals src (literal_start st) literal_len (written st)
                  in (case emit_matches src token match2
                             (st\<lparr>written := w, sp := sp2, hash_table := ht1\<rparr>) of
                        Final_literals st' \<Rightarrow> st'
                      | Search_again st' \<Rightarrow> encode_loop src st')))"
  by pat_completeness auto
termination encode_loop
proof (relation "measure (\<lambda>(src, st). length src - sp st)", goal_cases)
  case 1
  show ?case by simp
next
  case (2 src st fll step step_counter next_sp next_hash found sp1 rest match1 ht1 sp2 match2
          token literal_len w st')
  from 2 have fm: "find_match src (length src - 11) (hash_table st) (sp st + 1) 1 (2 ^ 6)
      (sflz4_private_hash (sflz4_private_peek_u32le src (sp st + 1))) = Some (sp1, match1, ht1)"
    by simp
  from find_match_Some [OF fm] have
    sp1: "sp st + 1 \<le> sp1" "sp1 \<le> length src - 11" and
    pk: "sflz4_private_peek_u32le src sp1 = sflz4_private_peek_u32le src match1"
    by simp_all
  from 2 have "extend_backwards src (literal_start st) sp1 match1 = (sp2, match2)"
    by simp
  from extend_backwards_spec [OF this] obtain k where
    k: "sp1 = sp2 + k" "match1 = match2 + k" "\<forall>j<k. src ! (sp2 + j) = src ! (match2 + j)"
    by blast
  have eqs: "\<forall>j<k. src ! (4 + sp2 + j) = src ! (4 + match2 + j)"
  proof (intro allI impI)
    fix j assume j: "j < k"
    show "src ! (4 + sp2 + j) = src ! (4 + match2 + j)"
    proof (cases "4 + j < k")
      case True
      with k(3) have "src ! (sp2 + (4 + j)) = src ! (match2 + (4 + j))" by blast
      then show ?thesis by (simp add: add.commute add.left_commute)
    next
      case False
      then obtain i where i: "4 + j = k + i" "i < 4"
        using j by (metis add.commute le_Suc_ex not_less nat_add_left_cancel_less)
      from pk i(2) have "src ! (sp1 + i) = src ! (match1 + i)"
        by (rule peek_u32le_eq_nth)
      with k(1,2) i(1) show ?thesis
        by (metis add.assoc add.commute)
    qed
  qed
  from sp1 k(1) have "k \<le> length src - 5 - (4 + sp2)" by simp
  from longest_common_prefix_ge [OF eqs this]
  have ge: "k \<le> sflz4_private_longest_common_prefix src (4 + sp2) (4 + match2) (length src - 5)" .
  from 2 have "emit_matches src token match2 (st\<lparr>written := w, sp := sp2, hash_table := ht1\<rparr>)
      = Search_again st'"
    by simp
  from emit_matches_Search_again [OF this] ge
  have "sp2 + 4 + k \<le> sp st'" "sp st' < length src - 11"
    by (simp_all add: sp_emit_match)
  with k(1) sp1 show ?case by simp
qed

declare encode_loop.simps [simp del]


text \<open>
  \<open>sflz4_block_encode\<close>, given the capacity of the destination and the source. The result
  is the status, or the bytes written to the destination; the C function returns their
  number.
\<close>

definition sflz4_block_encode :: "nat \<Rightarrow> byte list \<Rightarrow> status + byte list" where
  "sflz4_block_encode dst_cap src =
     (case sflz4_block_encode_worst_case_dst_len (length src) of
        Inl e \<Rightarrow> Inl e
      | Inr v \<Rightarrow>
          if v > dst_cap then Inl error_dst_is_too_short
          else
            let st0 = \<lparr>written = [], sp = 0, literal_start = 0, hash_table = (\<lambda>_. 0)\<rparr>;
                st = (if length src > 12 then encode_loop src st0 else st0);
                final_literal_len = length src - literal_start st
            in Inr (emit_literals src (literal_start st) final_literal_len (written st)))"

section \<open>Evaluating the decoder and the encoder on concrete inputs\<close>

lemmas decode_unfold =
  sflz4_block_decode_def SFLZ4_LZ4_BLOCK_DECODE_MAX_INCL_SRC_LEN_def decode_loop.simps
  decode_literals_def decode_match_def read_length_extension.simps memcpy_def Let_def

lemmas encode_entry_unfold =
  sflz4_block_encode_def sflz4_block_encode_worst_case_dst_len_def
  SFLZ4_LZ4_BLOCK_ENCODE_MAX_INCL_SRC_LEN_def

lemmas enc_eval =
  emit_literals_def encode_loop.simps find_match.simps extend_backwards.simps
  emit_matches.simps emit_match_def probe_next_match_def
  sflz4_private_longest_common_prefix_def lcp_words.simps lcp_bytes.simps
  emit_length_extension.simps Let_def

lemma list_update_Cons_numeral:
  "(x # xs)[numeral k := v] = x # xs[pred_numeral k := v]"
  by (simp add: numeral_eq_Suc)

section \<open>Memory safety of the decoder\<close>

text \<open>
  The two cursors and the two remaining lengths of the decoder always add up to the
  lengths of the buffers.
\<close>

definition decode_inv :: "byte list \<Rightarrow> decode_state \<Rightarrow> bool" where
  "decode_inv src st \<longleftrightarrow>
     src_ptr st + src_len st = length src \<and> dst_ptr st + dst_len st = length (dst st)"

lemma read_length_extension_inv:
  "decode_inv src st \<Longrightarrow>
     (case read_length_extension src st len of
        Inl e \<Rightarrow> e = error_invalid_data
      | Inr (st', len') \<Rightarrow>
          decode_inv src st' \<and> dst st' = dst st \<and> dst_ptr st' = dst_ptr st \<and>
          dst_len st' = dst_len st \<and> src_ptr st < src_ptr st')"
proof (induction src st len rule: read_length_extension.induct)
  case (1 src st len)
  show ?case
  proof (cases "src_len st = 0")
    case True
    then show ?thesis by (simp add: read_length_extension.simps [of src st len])
  next
    case False
    with "1.prems" have inb: "\<not> length src \<le> src_ptr st"
      by (simp add: decode_inv_def)
    let ?st' = "st\<lparr>src_ptr := src_ptr st + 1, src_len := src_len st - 1\<rparr>"
    from False "1.prems" have inv': "decode_inv src ?st'"
      unfolding decode_inv_def by simp arith
    show ?thesis
    proof (cases "(ucast (src ! src_ptr st) :: u32) \<noteq> 255")
      case True
      with False inb inv' show ?thesis
        by (simp add: read_length_extension.simps [of src st len] Let_def)
    next
      case F: False
      have unf: "read_length_extension src st len =
                 read_length_extension src ?st' (len + ucast (src ! src_ptr st))"
        using False inb F by (simp add: read_length_extension.simps [of src st len] Let_def)
      from "1.IH" [OF False inb refl refl refl F inv']
      show ?thesis unfolding unf
        by (auto split: sum.splits)
    qed
  qed
qed

lemma copy_match_Some:
  "dp + n \<le> length d \<Longrightarrow> from < dp \<Longrightarrow>
     \<exists>d'. copy_match d dp from n = Some (d', dp + n) \<and> length d' = length d \<and>
          take dp d' = take dp d \<and> drop (dp + n) d' = drop (dp + n) d \<and>
          (\<forall>i<n. d' ! (dp + i) = d' ! (from + i))"
proof (induction n arbitrary: d dp "from")
  case 0
  then show ?case by simp
next
  case (Suc n)
  let ?d1 = "d[dp := d ! from]"
  from Suc.prems have "Suc dp + n \<le> length ?d1" "Suc from < Suc dp" by simp_all
  from Suc.IH [OF this] obtain d' where
    d': "copy_match ?d1 (Suc dp) (Suc from) n = Some (d', Suc dp + n)" "length d' = length d"
        "take (Suc dp) d' = take (Suc dp) ?d1" "drop (Suc dp + n) d' = drop (Suc dp + n) ?d1"
        "\<forall>i<n. d' ! (Suc dp + i) = d' ! (Suc from + i)"
    by auto
  from Suc.prems have inb: "from < length d" "dp < length d" by simp_all
  have nth_low: "d' ! j = ?d1 ! j" if "j < Suc dp" for j
    using d'(3) that by (metis nth_take)
  have "take dp d' = take dp d"
  proof (rule nth_equalityI)
    show "length (take dp d') = length (take dp d)" using d'(2) by simp
  next
    fix j assume "j < length (take dp d')"
    then have j: "j < dp" by simp
    with nth_low [of j] show "take dp d' ! j = take dp d ! j" by simp
  qed
  moreover have "drop (dp + Suc n) d' = drop (dp + Suc n) d"
    using d'(4) by simp
  moreover have "\<forall>i<Suc n. d' ! (dp + i) = d' ! (from + i)"
  proof (intro allI impI)
    fix i assume i: "i < Suc n"
    show "d' ! (dp + i) = d' ! (from + i)"
    proof (cases i)
      case 0
      from nth_low [of dp] inb have "d' ! dp = d ! from" by simp
      moreover from nth_low [of "from"] Suc.prems(2) have "d' ! from = d ! from" by simp
      ultimately show ?thesis using 0 by simp
    next
      case (Suc k)
      with i d'(5) show ?thesis by simp
    qed
  qed
  ultimately show ?case
    using d'(1,2) inb by auto
qed

lemma decode_literals_inv:
  assumes "decode_inv src st"
  shows "case decode_literals src token st of
           Stop r d \<Rightarrow> r \<noteq> Inl out_of_bounds_access \<and> length d = length (dst st)
         | Next st' \<Rightarrow> decode_inv src st' \<and> length (dst st') = length (dst st)"
proof (cases "drop_bit 4 token > 0")
  case False
  with assms show ?thesis by (simp add: decode_literals_def)
next
  case True
  let ?ll = "drop_bit 4 token"
  let ?r = "if ?ll = 15 then read_length_extension src st ?ll else Inr (st, ?ll)"
  have r: "case ?r of Inl e \<Rightarrow> e = error_invalid_data
           | Inr (st', len') \<Rightarrow> decode_inv src st' \<and> dst st' = dst st"
    using read_length_extension_inv [OF assms, of ?ll] assms
    by (auto split: sum.splits)
  show ?thesis
  proof (cases ?r)
    case (Inl e)
    with r True show ?thesis by (simp add: decode_literals_def Let_def)
  next
    case (Inr p)
    obtain st1 ll where p: "p = (st1, ll)" by (cases p)
    with r Inr have inv1: "decode_inv src st1" and d1: "dst st1 = dst st" by simp_all
    from True Inr p inv1 d1 show ?thesis
      by (auto simp: decode_literals_def Let_def memcpy_def decode_inv_def)
  qed
qed

lemma decode_match_inv:
  assumes "decode_inv src st"
  shows "case decode_match src token st of
           Stop r d \<Rightarrow> r \<noteq> Inl out_of_bounds_access \<and> length d = length (dst st)
         | Next st' \<Rightarrow> decode_inv src st' \<and> length (dst st') = length (dst st)"
proof (cases "src_len st < 2")
  case True
  then show ?thesis by (simp add: decode_match_def)
next
  case False
  with assms have inb: "\<not> length src < src_ptr st + 2" by (simp add: decode_inv_def)
  let ?off = "(ucast (src ! src_ptr st) :: u32) OR push_bit 8 (ucast (src ! (src_ptr st + 1)))"
  let ?st1 = "st\<lparr>src_ptr := src_ptr st + 2, src_len := src_len st - 2\<rparr>"
  from assms False have inv1: "decode_inv src ?st1"
    unfolding decode_inv_def by simp arith
  show ?thesis
  proof (cases "?off = 0 \<or> unat ?off > dst_ptr ?st1")
    case True
    with False inb show ?thesis by (auto simp: decode_match_def Let_def)
  next
    case off: False
    let ?cl = "(token AND 15) + 4"
    let ?r = "if ?cl = 19 then read_length_extension src ?st1 ?cl else Inr (?st1, ?cl)"
    have r: "case ?r of Inl e \<Rightarrow> e = error_invalid_data
           | Inr (st', len') \<Rightarrow> decode_inv src st' \<and> dst st' = dst st \<and> dst_ptr st' = dst_ptr st"
      using read_length_extension_inv [OF inv1, of ?cl] inv1
      by (auto split: sum.splits)
    have unf: "decode_match src token st =
      (case ?r of
         Inl e \<Rightarrow> Stop (Inl e) (dst ?st1)
       | Inr (st2, copy_len) \<Rightarrow>
           if dst_len st2 < unat copy_len
           then Stop (Inl error_dst_is_too_short) (dst st2)
           else
             (case copy_match (dst st2) (dst_ptr st2)
                     (dst_ptr st2 - unat ?off) (unat copy_len) of
                None \<Rightarrow> Stop (Inl out_of_bounds_access) (dst st2)
              | Some (d, dp) \<Rightarrow>
                  Next (st2\<lparr>dst := d, dst_ptr := dp,
                            dst_len := dst_len st2 - unat copy_len\<rparr>)))"
      using False inb off
      by (simp add: decode_match_def Let_def cong: sum.case_cong option.case_cong if_cong)
    show ?thesis
    proof (cases ?r)
      case (Inl e)
      with r show ?thesis unfolding unf by simp
    next
      case (Inr p)
      obtain st2 cl where p: "p = (st2, cl)" by (cases p)
      with r Inr have inv2: "decode_inv src st2" and d2: "dst st2 = dst st"
        and dp2: "dst_ptr st2 = dst_ptr st" by simp_all
      show ?thesis
      proof (cases "dst_len st2 < unat cl")
        case True
        with Inr p d2 show ?thesis unfolding unf by simp
      next
        case False
        from off have "unat ?off \<noteq> 0" "unat ?off \<le> dst_ptr st"
          by (simp_all add: unat_eq_0)
        with dp2 have lt: "dst_ptr st2 - unat ?off < dst_ptr st2" by simp
        from False inv2 have "dst_ptr st2 + unat cl \<le> length (dst st2)"
          by (simp add: decode_inv_def)
        from copy_match_Some [OF this lt] obtain d' where
          "copy_match (dst st2) (dst_ptr st2) (dst_ptr st2 - unat ?off) (unat cl)
             = Some (d', dst_ptr st2 + unat cl)" "length d' = length (dst st2)"
          by blast
        with False Inr p inv2 d2 show ?thesis unfolding unf
          by (simp add: decode_inv_def)
      qed
    qed
  qed
qed

lemma decode_loop_inv:
  "decode_inv src st \<Longrightarrow>
     fst (decode_loop src st) \<noteq> Inl out_of_bounds_access \<and>
     length (snd (decode_loop src st)) = length (dst st)"
proof (induction src st rule: decode_loop.induct)
  case (1 src st)
  show ?case
  proof (cases "src_len st > 0")
    case False
    then show ?thesis by (simp add: decode_loop.simps [of src st])
  next
    case True
    with "1.prems" have inb: "\<not> length src \<le> src_ptr st" by (simp add: decode_inv_def)
    let ?token = "ucast (src ! src_ptr st) :: u32"
    let ?st0 = "st\<lparr>src_ptr := src_ptr st + 1, src_len := src_len st - 1\<rparr>"
    from True "1.prems" have inv0: "decode_inv src ?st0"
      unfolding decode_inv_def by simp arith
    note lit = decode_literals_inv [OF inv0, of ?token]
    show ?thesis
    proof (cases "decode_literals src ?token ?st0")
      case (Stop r d)
      with lit True inb show ?thesis
        by (simp add: decode_loop.simps [of src st] Let_def)
    next
      case (Next st1)
      with lit have inv1: "decode_inv src st1" and l1: "length (dst st1) = length (dst st)"
        by simp_all
      note mt = decode_match_inv [OF inv1, of ?token]
      show ?thesis
      proof (cases "decode_match src ?token st1")
        case (Stop r d)
        with mt Next True inb l1 show ?thesis
          by (simp add: decode_loop.simps [of src st] Let_def)
      next
        case N2: (Next st2)
        with mt have inv2: "decode_inv src st2" and l2: "length (dst st2) = length (dst st1)"
          by simp_all
        from "1.IH" [OF True inb refl refl Next N2 inv2] l1 l2 Next N2 True inb
        show ?thesis
          by (simp add: decode_loop.simps [of src st] Let_def)
      qed
    qed
  qed
qed

text \<open>
  Claim C7. Every read of the source and every write of the destination in the decoder
  is guarded in the model: an access outside a buffer would give the result
  \<open>out_of_bounds_access\<close>. The decoder never gives that result, for any destination and
  any source, and it leaves the size of the destination as it was. A source longer than
  \<open>0x00FFFFFF\<close> bytes is refused with \<open>error_src_is_too_long\<close> and the destination
  untouched, whatever the buffers hold.
\<close>

theorem C7_decode_stays_in_bounds:
  "fst (sflz4_block_decode dst_buf src) \<noteq> Inl out_of_bounds_access \<and>
   length (snd (sflz4_block_decode dst_buf src)) = length dst_buf \<and>
   (length src > 0x00FFFFFF \<longrightarrow>
      sflz4_block_decode dst_buf src = (Inl error_src_is_too_long, dst_buf))"
proof -
  have "decode_inv src \<lparr>dst = dst_buf, dst_ptr = 0, dst_len = length dst_buf,
                         src_ptr = 0, src_len = length src\<rparr>"
    by (simp add: decode_inv_def)
  from decode_loop_inv [OF this] show ?thesis
    by (simp add: sflz4_block_decode_def SFLZ4_LZ4_BLOCK_DECODE_MAX_INCL_SRC_LEN_def)
qed

theorem C7_decode_stays_in_bounds_witness:
  "sflz4_block_decode [0x07] (replicate 16777216 0x00) = (Inl error_src_is_too_long, [0x07]) \<and>
   fst (sflz4_block_decode [] [0x10, 0x41]) \<noteq> Inl out_of_bounds_access"
  using C7_decode_stays_in_bounds [of "[0x07]" "replicate 16777216 0x00"]
        C7_decode_stays_in_bounds [of "[]" "[0x10, 0x41]"]
  by simp

section \<open>The length accumulators of the decoder\<close>

lemma unat_byte_less: "unat (b :: byte) < 256"
  using unsigned_less [of b, where 'a = nat] by simp

lemma unat_ucast_byte: "unat (ucast (b :: byte) :: u32) = unat b"
proof -
  have "unat b < 2 ^ 32" using unat_byte_less [of b] by simp
  then show ?thesis
    by (simp add: unsigned_ucast_eq take_bit_nat_eq_self_iff)
qed

lemma unat_ucast_byte_le: "unat (ucast (b :: byte) :: u32) \<le> 255"
  using unat_byte_less [of b] by (simp add: unat_ucast_byte)

lemma read_length_extension_exact:
  "read_length_extension src st len = Inr (st', len') \<Longrightarrow>
   unat len + 255 * src_len st < 2 ^ 32 \<Longrightarrow>
     src_ptr st \<le> src_ptr st' \<and> src_len st' \<le> src_len st \<and>
     src_ptr st' - src_ptr st = src_len st - src_len st' \<and>
     unat len' = unat len +
        sum_list (map unat (take (src_ptr st' - src_ptr st) (drop (src_ptr st) src))) \<and>
     unat len' \<le> unat len + 255 * (src_len st - src_len st')"
proof (induction src st len rule: read_length_extension.induct)
  case (1 src st len)
  from "1.prems"(1) have pos: "src_len st \<noteq> 0" and inb: "\<not> length src \<le> src_ptr st"
    by (auto simp: read_length_extension.simps [of src st len] split: if_splits)
  let ?s = "ucast (src ! src_ptr st) :: u32"
  let ?st' = "st\<lparr>src_ptr := src_ptr st + 1, src_len := src_len st - 1\<rparr>"
  from pos "1.prems"(2) have "unat len + unat ?s < 2 ^ 32"
    using unat_ucast_byte_le [of "src ! src_ptr st"] by simp
  then have add: "unat (len + ?s) = unat len + unat (src ! src_ptr st)"
    by (simp add: unat_add_lem [THEN iffD1] unat_ucast_byte)
  from inb have dr: "drop (src_ptr st) src = src ! src_ptr st # drop (Suc (src_ptr st)) src"
    by (simp add: Cons_nth_drop_Suc)
  show ?case
  proof (cases "?s \<noteq> 255")
    case True
    with "1.prems"(1) pos inb have "st' = ?st'" "len' = len + ?s"
      by (simp_all add: read_length_extension.simps [of src st len] Let_def)
    with add pos dr unat_ucast_byte_le [of "src ! src_ptr st"] show ?thesis
      by (simp add: unat_ucast_byte)
  next
    case False
    with "1.prems"(1) pos inb have
      rec: "read_length_extension src ?st' (len + ?s) = Inr (st', len')"
      by (simp add: read_length_extension.simps [of src st len] Let_def)
    from add pos "1.prems"(2) unat_ucast_byte_le [of "src ! src_ptr st"]
    have "unat (len + ?s) + 255 * src_len ?st' < 2 ^ 32"
      by (simp add: unat_ucast_byte)
    note IH = "1.IH" [OF pos inb refl refl refl False rec this]
    have sel: "src_ptr ?st' = Suc (src_ptr st)" "src_len ?st' = src_len st - 1" by simp_all
    have ih: "Suc (src_ptr st) \<le> src_ptr st'" "src_len st' \<le> src_len st - 1"
      "src_ptr st' - Suc (src_ptr st) = src_len st - 1 - src_len st'"
      "unat len' = unat (len + ?s) +
         sum_list (map unat (take (src_ptr st' - Suc (src_ptr st)) (drop (Suc (src_ptr st)) src)))"
      "unat len' \<le> unat (len + ?s) + 255 * (src_len st - 1 - src_len st')"
      using IH unfolding sel by blast+

    from ih(1) have tk: "src_ptr st' - src_ptr st = Suc (src_ptr st' - Suc (src_ptr st))"
      by simp
    from ih(1,2,3) pos have "src_ptr st' - src_ptr st = src_len st - src_len st'" by arith
    moreover from ih(4) add have "unat len' = unat len +
        sum_list (map unat (take (src_ptr st' - src_ptr st) (drop (src_ptr st) src)))"
      unfolding tk dr by simp
    moreover from ih(5) add ih(2) pos unat_ucast_byte_le [of "src ! src_ptr st"]
    have "unat len' \<le> unat len + 255 * (src_len st - src_len st')"
      by (simp add: unat_ucast_byte)
    ultimately show ?thesis using ih(1,2) by simp
  qed
qed

text \<open>
  Claim C10. With at most \<open>0x00FFFFFF\<close> source bytes left and an accumulator that starts
  at 15 (literal length) or 19 (match length), the 32-bit accumulator of the extension
  loop never wraps: its value is the starting value plus the sum of the extension bytes
  read, as natural numbers. Each byte read takes one off the remaining source length, so
  the value stays below \<open>start + 255 * src_len + 254\<close>, which is below \<open>2 ^ 32\<close>. The
  only other 32-bit addition of the decoder, \<open>(token & 15) + 4\<close>, does not wrap either.
\<close>

theorem C10_decoder_lengths_do_not_wrap:
  assumes "src_len st \<le> 0x00FFFFFF" and "unat len \<le> 19"
    and "read_length_extension src st len = Inr (st', len')"
  shows "unat len' = unat len +
           sum_list (map unat (take (src_ptr st' - src_ptr st) (drop (src_ptr st) src))) \<and>
         src_ptr st' - src_ptr st = src_len st - src_len st' \<and>
         unat len' \<le> unat len + 255 * src_len st + 254 \<and>
         unat len + 255 * src_len st + 254 < (2 :: nat) ^ 32 \<and>
         unat ((token AND 15) + 4 :: u32) = unat (token AND 15) + 4"
proof -
  from assms(1,2) have small: "unat len + 255 * src_len st < 2 ^ 32" by simp
  note ex = read_length_extension_exact [OF assms(3) small]
  have "unat len + 255 * (src_len st - src_len st') \<le> unat len + 255 * src_len st + 254"
    by simp
  with ex have b: "unat len' \<le> unat len + 255 * src_len st + 254" by linarith
  have "unat (token AND 15) \<le> 15"
    using word_and_le1 [of token 15] by (simp add: word_le_nat_alt)
  then have "unat ((token AND 15) + 4) = unat (token AND 15) + 4"
    by (simp add: unat_add_lem [THEN iffD1])
  with ex b assms(1,2) show ?thesis by simp
qed

theorem C10_decoder_lengths_do_not_wrap_witness:
  "unat (15 + 255 + 7 :: u32) = 15 + 255 + 7 \<and>
   read_length_extension [0xFF, 0x07] \<lparr>dst = [], dst_ptr = 0, dst_len = 0, src_ptr = 0, src_len = 2\<rparr> 15
     = Inr (\<lparr>dst = [], dst_ptr = 0, dst_len = 0, src_ptr = 2, src_len = 0\<rparr>, 277)"
  using C10_decoder_lengths_do_not_wrap
    [of "\<lparr>dst = [], dst_ptr = 0, dst_len = 0, src_ptr = 0, src_len = 2\<rparr>" 15 "[0xFF, 0x07]"
        "\<lparr>dst = [], dst_ptr = 0, dst_len = 0, src_ptr = 2, src_len = 0\<rparr>" 277 0]
  by (simp add: read_length_extension.simps)

section \<open>Overlapping match copies\<close>

lemma copy_match_numeral:
  "copy_match d dp from (numeral k) =
     (if from < length d \<and> dp < length d
      then copy_match (d[dp := d ! from]) (dp + 1) (from + 1) (pred_numeral k)
      else None)"
  by (simp add: numeral_eq_Suc)

lemma copy_match_in_bounds:
  "copy_match d dp from n = Some r \<Longrightarrow> from < dp \<Longrightarrow> n = 0 \<or> dp + n \<le> length d"
proof (induction n arbitrary: d dp "from")
  case 0
  then show ?case by simp
next
  case (Suc n)
  from Suc.prems(1) have inb: "from < length d" "dp < length d"
    and rec: "copy_match (d[dp := d ! from]) (dp + 1) (from + 1) n = Some r"
    by (auto split: if_splits)
  from Suc.IH [OF rec] Suc.prems(2) have "n = 0 \<or> dp + 1 + n \<le> length d" by simp
  with inb show ?case by auto
qed

lemma copy_match_offset_one:
  assumes "copy_match d dp (dp - 1) k = Some (d', dp')" and "0 < dp"
  shows "dp' = dp + k \<and> take dp' d' = take dp d @ replicate k (d ! (dp - 1)) \<and>
         drop dp' d' = drop dp' d \<and> length d' = length d"
proof (cases "k = 0")
  case True
  with assms show ?thesis by simp
next
  case False
  from assms(2) have lt: "dp - 1 < dp" by simp
  from copy_match_in_bounds [OF assms(1) lt] False have le: "dp + k \<le> length d" by simp
  from copy_match_Some [OF le lt] assms(1) have
    s: "dp' = dp + k" "length d' = length d" "take dp d' = take dp d"
       "drop (dp + k) d' = drop (dp + k) d" "\<forall>i<k. d' ! (dp + i) = d' ! (dp - 1 + i)"
    by auto
  have low: "d' ! j = d ! j" if "j < dp" for j
    using s(3) that by (metis nth_take)
  have run: "i < k \<Longrightarrow> d' ! (dp + i) = d ! (dp - 1)" for i
  proof (induction i)
    case 0
    with s(5) have "d' ! (dp + 0) = d' ! (dp - 1 + 0)" by blast
    with low [of "dp - 1"] assms(2) show ?case by simp
  next
    case (Suc i)
    then have "i < k" by simp
    from Suc.prems s(5) have "d' ! (dp + Suc i) = d' ! (dp - 1 + Suc i)" by blast
    also from assms(2) have "dp - 1 + Suc i = dp + i" by simp
    finally show ?case using Suc.IH [OF \<open>i < k\<close>] by simp
  qed
  have "take (dp + k) d' = take dp d @ replicate k (d ! (dp - 1))"
  proof (rule nth_equalityI)
    show "length (take (dp + k) d') = length (take dp d @ replicate k (d ! (dp - 1)))"
      using le s(2) by simp
  next
    fix j assume "j < length (take (dp + k) d')"
    with le s(2) have j: "j < dp + k" by simp
    show "take (dp + k) d' ! j = (take dp d @ replicate k (d ! (dp - 1))) ! j"
    proof (cases "j < dp")
      case True
      with j le low [of j] show ?thesis by (simp add: nth_append)
    next
      case False
      with j have "j - dp < k" "j = dp + (j - dp)" by simp_all
      with run [of "j - dp"] j le False show ?thesis
        by (simp add: nth_append)
    qed
  qed
  with s show ?thesis by simp
qed

lemma read_length_extension_frame:
  "read_length_extension src st len = Inr (st', len') \<Longrightarrow>
     dst st' = dst st \<and> dst_ptr st' = dst_ptr st \<and> dst_len st' = dst_len st"
proof (induction src st len rule: read_length_extension.induct)
  case (1 src st len)
  from "1.prems" have pos: "src_len st \<noteq> 0" and inb: "\<not> length src \<le> src_ptr st"
    by (auto simp: read_length_extension.simps [of src st len] split: if_splits)
  let ?s = "ucast (src ! src_ptr st) :: u32"
  let ?st' = "st\<lparr>src_ptr := src_ptr st + 1, src_len := src_len st - 1\<rparr>"
  show ?case
  proof (cases "?s \<noteq> 255")
    case True
    with "1.prems" pos inb show ?thesis
      by (auto simp: read_length_extension.simps [of src st len] Let_def)
  next
    case False
    with "1.prems" pos inb have
      "read_length_extension src ?st' (len + ?s) = Inr (st', len')"
      by (simp add: read_length_extension.simps [of src st len] Let_def)
    from "1.IH" [OF pos inb refl refl refl False this] show ?thesis by simp
  qed
qed

section \<open>The empty block\<close>

text \<open>
  Claim C2. Encoding the empty input gives the single byte \<open>0x00\<close>. The claim goes on:
  decoding \<open>[0x00]\<close> succeeds with 0 bytes written. The code does not do that: the
  end-of-block check sits inside \<open>if (literal_len > 0)\<close>, so with a zero literal length and
  an exhausted source the decoder reaches \<open>if (src_len < 2)\<close> and fails with invalid data.
  The theorem evaluates both functions there.
\<close>

theorem C2_decode_of_empty_block_is_invalid_data:
  "sflz4_block_encode (n + 16) [] = Inr [0x00] \<and>
   sflz4_block_decode dst_buf [0x00] = (Inl error_invalid_data, dst_buf)"
  by (simp add: encode_entry_unfold emit_literals_def decode_unfold)

section \<open>The destination capacity check of the encoder\<close>

text \<open>
  Claim C4. For a source within the encoder's length ceiling, \<open>sflz4_block_encode\<close> fails
  with \<open>error_dst_is_too_short\<close> whenever the destination capacity is below the worst case
  \<open>n + n div 255 + 16\<close>, whatever the compressed size would have been, and it never
  fails with that status when the capacity is at least the worst case.
\<close>

theorem C4_encode_refuses_short_dst:
  "length src \<le> 0x7E000000 \<Longrightarrow>
     (dst_cap < length src + length src div 255 + 16 \<longrightarrow>
        sflz4_block_encode dst_cap src = Inl error_dst_is_too_short) \<and>
     (length src + length src div 255 + 16 \<le> dst_cap \<longrightarrow>
        sflz4_block_encode dst_cap src \<noteq> Inl error_dst_is_too_short)"
  by (simp add: encode_entry_unfold Let_def)

theorem C4_encode_refuses_short_dst_witness:
  "length [0x41 :: byte] \<le> 0x7E000000 \<and>
   sflz4_block_encode 16 [0x41] = Inl error_dst_is_too_short \<and>
   sflz4_block_encode 17 [0x41] = Inr [0x10, 0x41] \<and>
   sflz4_block_encode 17 [0x41] \<noteq> Inl error_dst_is_too_short"
  using C4_encode_refuses_short_dst [of "[0x41]" 16]
        C4_encode_refuses_short_dst [of "[0x41]" 17]
  by (simp add: encode_entry_unfold emit_literals_def)

section \<open>Match offsets\<close>

text \<open>
  Claim C5. When the decoder has the two bytes of a match offset to read and the offset
  is zero or greater than the number of bytes written so far, it fails with invalid
  data. In particular the block \<open>[0x10, 0x41, 0x00, 0x00, 0x00]\<close>, decoded into a
  destination that can hold its one literal, fails with invalid data.
\<close>

theorem C5_bad_offset_is_invalid_data:
  "(2 \<le> src_len st \<and> src_ptr st + 2 \<le> length src \<and>
    ((ucast (src ! src_ptr st) :: u32) OR push_bit 8 (ucast (src ! (src_ptr st + 1))) = 0 \<or>
     unat ((ucast (src ! src_ptr st) :: u32) OR push_bit 8 (ucast (src ! (src_ptr st + 1))))
       > dst_ptr st)
    \<longrightarrow> decode_match src token st = Stop (Inl error_invalid_data) (dst st)) \<and>
   (1 \<le> length dst_buf \<longrightarrow>
      fst (sflz4_block_decode dst_buf [0x10, 0x41, 0x00, 0x00, 0x00]) = Inl error_invalid_data)"
proof (intro conjI impI)
  assume "2 \<le> src_len st \<and> src_ptr st + 2 \<le> length src \<and>
    ((ucast (src ! src_ptr st) :: u32) OR push_bit 8 (ucast (src ! (src_ptr st + 1))) = 0 \<or>
     unat ((ucast (src ! src_ptr st) :: u32) OR push_bit 8 (ucast (src ! (src_ptr st + 1))))
       > dst_ptr st)"
  then show "decode_match src token st = Stop (Inl error_invalid_data) (dst st)"
    by (auto simp: decode_match_def Let_def)
next
  assume "1 \<le> length dst_buf"
  then show "fst (sflz4_block_decode dst_buf [0x10, 0x41, 0x00, 0x00, 0x00])
               = Inl error_invalid_data"
    by (cases dst_buf) (simp_all add: decode_unfold)
qed

theorem C5_bad_offset_is_invalid_data_witness:
  "decode_match [0x10, 0x41, 0x05, 0x00, 0x00] 0x10
     \<lparr>dst = [0x41, 0], dst_ptr = 1, dst_len = 1, src_ptr = 2, src_len = 3\<rparr>
     = Stop (Inl error_invalid_data) [0x41, 0] \<and>
   fst (sflz4_block_decode [0, 0] [0x10, 0x41, 0x00, 0x00, 0x00]) = Inl error_invalid_data"
  using C5_bad_offset_is_invalid_data
    [of "\<lparr>dst = [0x41, 0], dst_ptr = 1, dst_len = 1, src_ptr = 2, src_len = 3\<rparr>"
        "[0x10, 0x41, 0x05, 0x00, 0x00]" "0x10" "[0, 0]"]
  by simp

section \<open>The wire format of a block\<close>

text \<open>
  The layout of a sequence, as the format has it: a token whose high nibble is the literal
  length and whose low nibble is the match length minus 4, both capped at 15; the
  extension bytes of a length that reached 15 (bytes of 255 and a last byte below 255,
  adding up to the length minus 15); the literals; the offset in two bytes, low byte
  first; the extension bytes of the match length. The last sequence of a block has the
  token, the literal length extension and the literals only.
\<close>

definition length_nibble :: "nat \<Rightarrow> nat" where
  "length_nibble n = (if n < 15 then n else 15)"

definition length_extension :: "nat \<Rightarrow> byte list" where
  "length_extension n = (if n < 15 then [] else emit_length_extension (n - 15))"

definition token_byte :: "nat \<Rightarrow> nat \<Rightarrow> byte" where
  "token_byte l m = push_bit 4 (of_nat (length_nibble l)) OR of_nat (length_nibble m)"

definition sequence_bytes :: "byte list \<Rightarrow> nat \<Rightarrow> nat \<Rightarrow> byte list" where
  "sequence_bytes lits off adj =
     token_byte (length lits) adj # length_extension (length lits) @ lits @
     [of_nat off, of_nat (off div 256)] @ length_extension adj"

definition final_bytes :: "byte list \<Rightarrow> byte list" where
  "final_bytes lits = token_byte (length lits) 0 # length_extension (length lits) @ lits"

text \<open>\<open>bytes_at enc p bs\<close>: the bytes \<open>bs\<close> stand in \<open>enc\<close> from index \<open>p\<close> on.\<close>

definition bytes_at :: "byte list \<Rightarrow> nat \<Rightarrow> byte list \<Rightarrow> bool" where
  "bytes_at enc p bs \<longleftrightarrow> p + length bs \<le> length enc \<and> take (length bs) (drop p enc) = bs"

lemma bytes_at_Nil: "bytes_at enc p [] \<longleftrightarrow> p \<le> length enc"
  by (simp add: bytes_at_def)

lemma bytes_at_Cons:
  "bytes_at enc p (b # bs) \<longleftrightarrow> p < length enc \<and> enc ! p = b \<and> bytes_at enc (Suc p) bs"
proof (cases "p < length enc")
  case True
  then have "drop p enc = enc ! p # drop (Suc p) enc" by (simp add: Cons_nth_drop_Suc)
  with True show ?thesis by (auto simp: bytes_at_def)
next
  case False
  then show ?thesis by (simp add: bytes_at_def)
qed

lemma bytes_at_append:
  "bytes_at enc p (xs @ ys) \<longleftrightarrow> bytes_at enc p xs \<and> bytes_at enc (p + length xs) ys"
proof (induction xs arbitrary: p)
  case Nil
  then show ?case by (auto simp: bytes_at_def)
next
  case (Cons x xs)
  then show ?case by (auto simp: bytes_at_Cons)
qed

lemma bytes_at_take_drop: "bytes_at enc p bs \<Longrightarrow> take (length bs) (drop p enc) = bs"
  by (simp add: bytes_at_def)

lemma bytes_at_prefix: "bytes_at (pre @ bs) (length pre) bs"
  by (simp add: bytes_at_def)

lemma word_eq_of_natI: "unat (w :: 'a::len word) = n \<Longrightarrow> w = of_nat n"
proof -
  assume "unat w = n"
  then have "(of_nat (unat w) :: 'a word) = of_nat n" by simp
  then show "w = of_nat n" by simp
qed

lemma length_nibble_less: "length_nibble n < 16"
  by (simp add: length_nibble_def)

lemma nat_push_bit_or:
  assumes "b < 2 ^ k"
  shows "push_bit k a OR b = push_bit k a + (b :: nat)"
proof -
  have "push_bit k a AND b = 0"
  proof (rule bit_eqI)
    fix n
    have "\<not> bit b n" if "k \<le> n"
    proof -
      from that have "(2::nat) ^ k \<le> 2 ^ n" by (rule power_increasing) simp
      with assms have "b < 2 ^ n" by (rule less_le_trans)
      then show ?thesis by (simp add: bit_iff_odd)
    qed
    then show "bit (push_bit k a AND b) n = bit (0 :: nat) n"
      by (auto simp: bit_simps)
  qed
  then have "push_bit k a + b = push_bit k a OR b"
    by (rule disjunctive_add_eq_or)
  then show ?thesis by simp
qed

lemma nat_nibbles_or: "b < 16 \<Longrightarrow> push_bit 4 a OR b = 16 * a + (b :: nat)"
  using nat_push_bit_or [of b 4 a] by (simp add: push_bit_eq_mult)

lemma unat_nibbles:
  assumes "a < 16" "b < 16"
  shows "unat (push_bit 4 (of_nat a) OR of_nat b :: byte) = 16 * a + b"
proof -
  from assms have "16 * a + b < 256" by simp
  have "unat (push_bit 4 (of_nat a) OR of_nat b :: byte)
      = take_bit 8 (push_bit 4 (a mod 256)) OR (b mod 256)"
    by (simp add: unsigned_or_eq unsigned_push_bit_eq unat_of_nat)
  also from assms have "\<dots> = take_bit 8 (push_bit 4 a) OR b" by simp
  also from assms have "take_bit 8 (push_bit 4 a) = push_bit 4 a"
    by (simp add: take_bit_nat_eq_self_iff push_bit_eq_mult)
  finally show ?thesis using assms(2) by (simp add: nat_nibbles_or)
qed

lemma unat_drop_bit_4: "unat (drop_bit 4 (w :: u32)) = unat w div 16"
  by (simp add: drop_bit_eq_div unat_div)

lemma unat_and_15: "unat ((w :: u32) AND 15) = unat w mod 16"
proof -
  have "take_bit 4 (unat w) = unat w AND mask 4" by (rule take_bit_eq_mask)
  moreover have "mask 4 = (15 :: nat)" by (simp add: mask_eq_exp_minus_1)
  ultimately have "unat w AND 15 = unat w mod 16" by (simp add: take_bit_eq_mod)
  then show ?thesis by (simp add: unsigned_and_eq)
qed


lemma unat_token_byte: "unat (token_byte l m) = 16 * length_nibble l + length_nibble m"
  unfolding token_byte_def by (rule unat_nibbles) (rule length_nibble_less)+

lemma token_literal_nibble:
  "drop_bit 4 (ucast (token_byte l m) :: u32) = of_nat (length_nibble l)"
proof -
  have "unat (drop_bit 4 (ucast (token_byte l m) :: u32)) = length_nibble l"
    using length_nibble_less [of m]
    by (simp add: unat_drop_bit_4 unat_ucast_byte unat_token_byte)
  then show ?thesis by (rule word_eq_of_natI)
qed

lemma token_match_nibble:
  "(ucast (token_byte l m) :: u32) AND 15 = of_nat (length_nibble m)"
proof -
  have "unat ((ucast (token_byte l m) :: u32) AND 15) = length_nibble m"
    using length_nibble_less [of m]
    by (simp add: unat_and_15 unat_ucast_byte unat_token_byte)
  then show ?thesis by (rule word_eq_of_natI)
qed

lemma length_emit_length_extension: "length (emit_length_extension n) = n div 255 + 1"
proof (induction n rule: emit_length_extension.induct)
  case (1 n)
  show ?case
  proof (cases "n \<ge> 255")
    case True
    from "1.IH" [OF True] True show ?thesis
      by (subst emit_length_extension.simps) (simp add: le_div_geq)
  next
    case False
    then show ?thesis by (subst emit_length_extension.simps) simp
  qed
qed

lemma read_length_extension_emit:
  assumes "bytes_at enc (src_ptr st) (emit_length_extension n)"
    and "length (emit_length_extension n) \<le> src_len st"
    and "unat len + n < 2 ^ 32"
  shows "read_length_extension enc st len =
           Inr (st\<lparr>src_ptr := src_ptr st + length (emit_length_extension n),
                    src_len := src_len st - length (emit_length_extension n)\<rparr>,
                len + of_nat n) \<and>
         unat (len + of_nat n :: u32) = unat len + n"
  using assms
proof (induction n arbitrary: st len rule: emit_length_extension.induct)
  case (1 n)
  let ?k = "length (emit_length_extension n)"
  from "1.prems"(2) have pos: "src_len st \<noteq> 0"
    by (simp add: length_emit_length_extension)
  show ?case
  proof (cases "n \<ge> 255")
    case True
    then have em: "emit_length_extension n = 0xFF # emit_length_extension (n - 255)"
      by (subst emit_length_extension.simps) simp
    from "1.prems"(1) have inb: "\<not> length enc \<le> src_ptr st"
      and b: "enc ! src_ptr st = 0xFF"
      and rest: "bytes_at enc (Suc (src_ptr st)) (emit_length_extension (n - 255))"
      unfolding em bytes_at_Cons by simp_all
    let ?st' = "st\<lparr>src_ptr := src_ptr st + 1, src_len := src_len st - 1\<rparr>"
    from b have unf: "read_length_extension enc st len = read_length_extension enc ?st' (len + 255)"
      using pos inb by (subst read_length_extension.simps) (simp add: Let_def)
    from "1.prems"(3) True have "unat len + 255 < 2 ^ 32" by simp
    then have u255: "unat (len + 255) = unat len + 255"
      using unat_add_lem [of len 255] by simp
    from rest have p1: "bytes_at enc (src_ptr ?st') (emit_length_extension (n - 255))" by simp
    from "1.prems"(2) have p2: "length (emit_length_extension (n - 255)) \<le> src_len ?st'"
      unfolding em by simp
    from "1.prems"(3) True u255 have p3: "unat (len + 255) + (n - 255) < 2 ^ 32" by simp
    note IH = "1.IH" [OF True p1 p2 p3]
    have w: "len + 255 + of_nat (n - 255) = len + (of_nat n :: u32)"
    proof -
      from True have "n = 255 + (n - 255)" by simp
      then have "(of_nat n :: u32) = of_nat 255 + of_nat (n - 255)"
        by (metis of_nat_add)
      then show ?thesis by simp
    qed
    from IH show ?thesis
      unfolding unf w using u255 True "1.prems"(2)
      by (simp add: em)
  next
    case False
    then have em: "emit_length_extension n = [of_nat n]"
      by (subst emit_length_extension.simps) simp
    from "1.prems"(1) have inb: "\<not> length enc \<le> src_ptr st"
      and b: "enc ! src_ptr st = of_nat n"
      unfolding em bytes_at_Cons by simp_all
    from False have un: "unat (of_nat n :: byte) = n" by (simp add: unat_of_nat)
    then have uc: "unat (ucast (of_nat n :: byte) :: u32) = n" by (simp add: unat_ucast_byte)
    have ne: "(ucast (of_nat n :: byte) :: u32) \<noteq> 255"
    proof
      assume "(ucast (of_nat n :: byte) :: u32) = 255"
      then have "unat (ucast (of_nat n :: byte) :: u32) = 255" by simp
      with uc False show False by simp
    qed
    have eq: "(ucast (of_nat n :: byte) :: u32) = of_nat n"
      using uc by (rule word_eq_of_natI)
    from "1.prems"(3) have "unat len + unat (of_nat n :: u32) < 2 ^ 32"
      using uc eq by simp
    then have "unat (len + of_nat n :: u32) = unat len + n"
      using unat_add_lem [of len "of_nat n :: u32"] uc eq by simp
    then show ?thesis
      using pos inb b ne eq
      by (subst read_length_extension.simps) (simp add: Let_def em)
  qed
qed

section \<open>The decoder on a well-formed block\<close>

lemma length_length_extension:
  "length (length_extension n) = (if n < 15 then 0 else (n - 15) div 255 + 1)"
  by (simp add: length_extension_def length_emit_length_extension)

lemma of_nat_length_nibble_eq_15:
  "(of_nat (length_nibble n) :: u32) = 15 \<longleftrightarrow> \<not> n < 15"
proof -
  have "unat (of_nat (length_nibble n) :: u32) = length_nibble n"
    using length_nibble_less [of n] by (simp add: unat_of_nat)
  moreover have "unat (15 :: u32) = 15" by simp
  ultimately have "(of_nat (length_nibble n) :: u32) = 15 \<longleftrightarrow> length_nibble n = 15"
    by (metis word_eq_of_natI of_nat_numeral)
  then show ?thesis by (simp add: length_nibble_def)
qed

lemma unat_of_nat_small: "n < 2 ^ 32 \<Longrightarrow> unat (of_nat n :: u32) = n"
  by (simp add: unat_of_nat)

text \<open>Reading a length from its nibble and its extension bytes.\<close>

lemma read_length_long:
  assumes "bytes_at enc (src_ptr st) (length_extension n)"
    and "length (length_extension n) \<le> src_len st"
    and "base + n < 2 ^ 32" and "base \<le> 19" and "\<not> n < 15"
  shows "read_length_extension enc st (of_nat (base + 15)) =
         Inr (st\<lparr>src_ptr := src_ptr st + length (length_extension n),
                  src_len := src_len st - length (length_extension n)\<rparr>,
              of_nat (base + n))"
proof -
  from assms(5) have le: "length_extension n = emit_length_extension (n - 15)"
    by (simp add: length_extension_def)
  have ub: "unat (of_nat (base + 15) :: u32) = base + 15"
    using assms(4) by (intro unat_of_nat_small) simp
  from assms(3,5) have small: "unat (of_nat (base + 15) :: u32) + (n - 15) < 2 ^ 32"
    unfolding ub by simp
  from read_length_extension_emit [OF assms(1) [unfolded le] assms(2) [unfolded le] small]
  have "read_length_extension enc st (of_nat (base + 15)) =
          Inr (st\<lparr>src_ptr := src_ptr st + length (emit_length_extension (n - 15)),
                   src_len := src_len st - length (emit_length_extension (n - 15))\<rparr>,
               of_nat (base + 15) + of_nat (n - 15))"
    by simp
  moreover have "(of_nat (base + 15) + of_nat (n - 15) :: u32) = of_nat (base + n)"
  proof -
    from assms(5) have "base + n = base + 15 + (n - 15)" by simp
    then have "(of_nat (base + n) :: u32) = of_nat (base + 15 + (n - 15))" by simp
    then show ?thesis by (simp only: of_nat_add)
  qed
  ultimately show ?thesis by (simp add: le)
qed

lemma read_literal_length:
  assumes "bytes_at enc (src_ptr st) (length_extension n)"
    and "length (length_extension n) \<le> src_len st"
    and "n < 2 ^ 32"
  shows "(if (of_nat (length_nibble n) :: u32) = 15
          then read_length_extension enc st (of_nat (length_nibble n))
          else Inr (st, of_nat (length_nibble n))) =
         Inr (st\<lparr>src_ptr := src_ptr st + length (length_extension n),
                  src_len := src_len st - length (length_extension n)\<rparr>,
              of_nat n)"
proof (cases "n < 15")
  case True
  then have "(of_nat (length_nibble n) :: u32) \<noteq> 15"
    by (simp add: of_nat_length_nibble_eq_15)
  with True show ?thesis
    by (simp add: length_extension_def length_nibble_def)
next
  case False
  then have n15: "(of_nat (length_nibble n) :: u32) = 15"
    by (simp add: of_nat_length_nibble_eq_15)
  from assms(3) have "0 + n < (2 :: nat) ^ 32" by simp
  from read_length_long [OF assms(1,2) this _ False] show ?thesis
    by (simp add: n15)
qed

lemma read_match_length:
  assumes "bytes_at enc (src_ptr st) (length_extension n)"
    and "length (length_extension n) \<le> src_len st"
    and "4 + n < 2 ^ 32"
  shows "(if (of_nat (length_nibble n) + 4 :: u32) = 19
          then read_length_extension enc st (of_nat (length_nibble n) + 4)
          else Inr (st, of_nat (length_nibble n) + 4)) =
         Inr (st\<lparr>src_ptr := src_ptr st + length (length_extension n),
                  src_len := src_len st - length (length_extension n)\<rparr>,
              of_nat (4 + n))"
proof (cases "n < 15")
  case True
  then have "(of_nat (length_nibble n) :: u32) \<noteq> 15"
    by (simp add: of_nat_length_nibble_eq_15)
  then have "(of_nat (length_nibble n) + 4 :: u32) \<noteq> 15 + 4" by simp
  with True show ?thesis
    by (simp add: length_extension_def length_nibble_def add.commute)
next
  case False
  then have n15: "(of_nat (length_nibble n) :: u32) = 15"
    by (simp add: of_nat_length_nibble_eq_15)
  from read_length_long [OF assms(1,2,3) _ False] show ?thesis
    by (simp add: n15)
qed

lemma decode_literals_empty:
  assumes "drop_bit 4 token = (of_nat (length_nibble 0) :: u32)"
  shows "decode_literals enc token st = Next st"
  using assms by (simp add: decode_literals_def length_nibble_def)

lemma decode_literals_run:
  assumes tok: "drop_bit 4 token = (of_nat (length_nibble (length lits)) :: u32)"
    and at: "bytes_at enc (src_ptr st) (length_extension (length lits) @ lits)"
    and sl: "length (length_extension (length lits)) + length lits \<le> src_len st"
    and dl: "length lits \<le> dst_len st"
    and inv: "dst_ptr st + dst_len st = length (dst st)"
    and small: "length lits < 2 ^ 32"
    and ne: "lits \<noteq> []"
  shows "decode_literals enc token st =
     (let st' = st\<lparr>dst := take (dst_ptr st) (dst st) @ lits @
                          drop (dst_ptr st + length lits) (dst st),
                  dst_ptr := dst_ptr st + length lits,
                  dst_len := dst_len st - length lits,
                  src_ptr := src_ptr st + length (length_extension (length lits)) + length lits,
                  src_len := src_len st - length (length_extension (length lits)) - length lits\<rparr>
      in if src_len st' = 0 then Stop (Inr (dst_ptr st')) (dst st') else Next st')"
proof -
  let ?L = "length lits"
  let ?k = "length (length_extension ?L)"
  let ?st1 = "st\<lparr>src_ptr := src_ptr st + ?k, src_len := src_len st - ?k\<rparr>"
  from at have at1: "bytes_at enc (src_ptr st) (length_extension ?L)"
    and at2: "bytes_at enc (src_ptr st + ?k) lits"
    by (simp_all add: bytes_at_append)
  from sl have sl1: "?k \<le> src_len st" by simp
  note rd = read_literal_length [OF at1 sl1 small]
  from small have un: "unat (of_nat ?L :: u32) = ?L" by (simp add: unat_of_nat)
  have nz: "(0 :: u32) < of_nat (length_nibble ?L)"
  proof -
    from ne have "0 < length_nibble ?L" by (simp add: length_nibble_def)
    moreover have "unat (of_nat (length_nibble ?L) :: u32) = length_nibble ?L"
      using length_nibble_less [of ?L] by (simp add: unat_of_nat)
    ultimately show ?thesis by (simp add: word_less_nat_alt)
  qed
  from at2 have mc: "memcpy (dst st) (dst_ptr st) enc (src_ptr st + ?k) ?L =
      Some (take (dst_ptr st) (dst st) @ lits @ drop (dst_ptr st + ?L) (dst st))"
    using dl inv by (simp add: memcpy_def bytes_at_def)
  from sl have nlt: "\<not> src_len st - ?k < ?L" by arith
  show ?thesis
    unfolding decode_literals_def Let_def tok rd
    using nz nlt dl mc un by (simp add: add.assoc)
qed

lemma unat_offset_bytes:
  assumes "off \<le> 0xFFFF"
  shows "unat ((ucast (of_nat off :: byte) :: u32) OR
               push_bit 8 (ucast (of_nat (off div 256) :: byte))) = off"
proof -
  have lo: "unat (ucast (of_nat off :: byte) :: u32) = off mod 256"
    by (simp add: unat_ucast_byte unat_of_nat)
  from assms have "off div 256 < 256" by simp
  then have hi: "unat (ucast (of_nat (off div 256) :: byte) :: u32) = off div 256"
    by (simp add: unat_ucast_byte unat_of_nat)
  from \<open>off div 256 < 256\<close> have "push_bit 8 (off div 256) < (2 :: nat) ^ 32"
    by (simp add: push_bit_eq_mult)
  then have tb: "take_bit 32 (push_bit 8 (off div 256)) = push_bit 8 (off div 256)"
    by (simp add: take_bit_nat_eq_self_iff)
  have "unat ((ucast (of_nat off :: byte) :: u32) OR
              push_bit 8 (ucast (of_nat (off div 256) :: byte)))
        = off mod 256 OR push_bit 8 (off div 256)"
    by (simp add: unsigned_or_eq unsigned_push_bit_eq lo hi tb)
  also have "\<dots> = push_bit 8 (off div 256) OR off mod 256" by (simp add: or.commute)
  also have "\<dots> = push_bit 8 (off div 256) + off mod 256"
    by (rule nat_push_bit_or) simp
  also have "\<dots> = off" by (simp add: push_bit_eq_mult)
  finally show ?thesis .
qed

lemma decode_match_run:
  assumes tok: "token AND 15 = (of_nat (length_nibble adj) :: u32)"
    and at: "bytes_at enc (src_ptr st) ([of_nat off, of_nat (off div 256)] @ length_extension adj)"
    and sl: "2 + length (length_extension adj) \<le> src_len st"
    and off: "0 < off" "off \<le> dst_ptr st" "off \<le> 0xFFFF"
    and dl: "4 + adj \<le> dst_len st"
    and inv: "dst_ptr st + dst_len st = length (dst st)"
    and small: "4 + adj < 2 ^ 32"
  shows "\<exists>d'. decode_match enc token st =
           Next (st\<lparr>dst := d', dst_ptr := dst_ptr st + (4 + adj),
                     dst_len := dst_len st - (4 + adj),
                     src_ptr := src_ptr st + 2 + length (length_extension adj),
                     src_len := src_len st - 2 - length (length_extension adj)\<rparr>) \<and>
           length d' = length (dst st) \<and>
           take (dst_ptr st) d' = take (dst_ptr st) (dst st) \<and>
           drop (dst_ptr st + (4 + adj)) d' = drop (dst_ptr st + (4 + adj)) (dst st) \<and>
           (\<forall>i<4 + adj. d' ! (dst_ptr st + i) = d' ! (dst_ptr st - off + i))"
proof -
  let ?k = "length (length_extension adj)"
  let ?st1 = "st\<lparr>src_ptr := src_ptr st + 2, src_len := src_len st - 2\<rparr>"
  let ?st2 = "?st1\<lparr>src_ptr := src_ptr ?st1 + ?k, src_len := src_len ?st1 - ?k\<rparr>"
  from at have b0: "enc ! src_ptr st = of_nat off"
    and b1: "enc ! (src_ptr st + 1) = of_nat (off div 256)"
    and inb: "src_ptr st + 2 \<le> length enc"
    and at2: "bytes_at enc (src_ptr ?st1) (length_extension adj)"
    by (auto simp: bytes_at_append bytes_at_Cons bytes_at_Nil)
  let ?off = "(ucast (enc ! src_ptr st) :: u32) OR push_bit 8 (ucast (enc ! (src_ptr st + 1)))"
  have uo: "unat ?off = off" unfolding b0 b1 by (rule unat_offset_bytes) (rule off(3))
  with off have ok: "\<not> (?off = 0 \<or> unat ?off > dst_ptr ?st1)"
    by (auto simp: unat_0_iff [symmetric] simp del: unat_0_iff unat_eq_0)
  from sl have sl1: "?k \<le> src_len ?st1" by simp
  note rd = read_match_length [OF at2 sl1 small]
  from small have un: "unat (of_nat (4 + adj) :: u32) = 4 + adj" by (rule unat_of_nat_small)
  from off(1,2) have lt: "dst_ptr st - off < dst_ptr st" by simp
  from dl inv have "dst_ptr st + (4 + adj) \<le> length (dst st)" by simp
  from copy_match_Some [OF this lt] obtain d' where
    d': "copy_match (dst st) (dst_ptr st) (dst_ptr st - off) (4 + adj)
           = Some (d', dst_ptr st + (4 + adj))"
        "length d' = length (dst st)" "take (dst_ptr st) d' = take (dst_ptr st) (dst st)"
        "drop (dst_ptr st + (4 + adj)) d' = drop (dst_ptr st + (4 + adj)) (dst st)"
        "\<forall>i<4 + adj. d' ! (dst_ptr st + i) = d' ! (dst_ptr st - off + i)"
    by blast
  have "decode_match enc token st =
           Next (st\<lparr>dst := d', dst_ptr := dst_ptr st + (4 + adj),
                     dst_len := dst_len st - (4 + adj),
                     src_ptr := src_ptr st + 2 + length (length_extension adj),
                     src_len := src_len st - 2 - length (length_extension adj)\<rparr>)"
    unfolding decode_match_def Let_def tok rd
    using sl inb ok dl d'(1) un uo
    by simp
  with d'(2-5) show ?thesis by blast
qed

text \<open>
  \<open>lz4_block src ls bs\<close>: the bytes \<open>bs\<close> are sequences that continue a decoding which has
  produced the first \<open>ls\<close> bytes of \<open>src\<close>, and end it with all of \<open>src\<close>: each match copies
  bytes that are equal to the bytes of \<open>src\<close> at the match position, from an offset between
  1 and 65535 that stays inside what has been produced, and the last sequence carries at
  least one literal.
\<close>

inductive lz4_block :: "byte list \<Rightarrow> nat \<Rightarrow> byte list \<Rightarrow> bool" for src :: "byte list" where
  final: "ls < length src \<Longrightarrow> lz4_block src ls (final_bytes (drop ls src))"
| seq: "ls \<le> mp \<Longrightarrow> 0 < off \<Longrightarrow> off \<le> mp \<Longrightarrow> off \<le> 0xFFFF \<Longrightarrow>
        mp + (4 + adj) \<le> length src \<Longrightarrow>
        \<forall>j<4 + adj. src ! (mp + j) = src ! (mp - off + j) \<Longrightarrow>
        lz4_block src (mp + (4 + adj)) bs \<Longrightarrow>
        lz4_block src ls (sequence_bytes (take (mp - ls) (drop ls src)) off adj @ bs)"

lemma overlap_copy_eq_src:
  assumes pre: "take mp d' = take mp src"
    and cp: "\<forall>i<n. d' ! (mp + i) = d' ! (mp - off + i)"
    and eq: "\<forall>j<n. src ! (mp + j) = src ! (mp - off + j)"
    and off: "0 < off" "off \<le> mp"
    and len: "mp + n \<le> length src" "mp + n \<le> length d'"
  shows "take (mp + n) d' = take (mp + n) src"
proof -
  have low: "d' ! j = src ! j" if "j < mp" for j
    using pre that by (metis nth_take)
  have run: "i < n \<Longrightarrow> d' ! (mp + i) = src ! (mp + i)" for i
  proof (induction i rule: less_induct)
    case (less i)
    from cp less.prems have c: "d' ! (mp + i) = d' ! (mp - off + i)" by blast
    from eq less.prems have e: "src ! (mp + i) = src ! (mp - off + i)" by blast
    show ?case
    proof (cases "i < off")
      case True
      with off have "mp - off + i < mp" by simp
      from low [OF this] c e show ?thesis by simp
    next
      case False
      with off have idx: "mp - off + i = mp + (i - off)" by simp
      from False off less.prems have "i - off < i" "i - off < n" by simp_all
      from less.IH [OF this] c e idx show ?thesis by simp
    qed
  qed
  show ?thesis
  proof (rule nth_equalityI)
    show "length (take (mp + n) d') = length (take (mp + n) src)" using len by simp
  next
    fix j assume "j < length (take (mp + n) d')"
    with len have j: "j < mp + n" by simp
    show "take (mp + n) d' ! j = take (mp + n) src ! j"
    proof (cases "j < mp")
      case True
      with j low [of j] show ?thesis by simp
    next
      case False
      with j have "j - mp < n" "j = mp + (j - mp)" by simp_all
      with run [of "j - mp"] j show ?thesis by simp
    qed
  qed
qed

lemma length_sequence_bytes:
  "length (sequence_bytes lits off adj) =
     1 + length (length_extension (length lits)) + length lits + 2 + length (length_extension adj)"
  by (simp add: sequence_bytes_def)

lemma length_final_bytes:
  "length (final_bytes lits) = 1 + length (length_extension (length lits)) + length lits"
  by (simp add: final_bytes_def)

lemma decode_block:
  assumes "lz4_block src ls bs"
    and "bytes_at enc (src_ptr st) bs" and "src_len st = length bs"
    and "dst_ptr st = ls" and "dst_ptr st + dst_len st = length (dst st)"
    and "length src \<le> length (dst st)" and "take ls (dst st) = take ls src"
    and "length src + 4 < 2 ^ 32"
  shows "\<exists>d'. decode_loop enc st = (Inr (length src), d') \<and> take (length src) d' = src \<and>
              length d' = length (dst st)"
  using assms
proof (induction arbitrary: st)
  case (final ls)
  let ?lits = "drop ls src"
  let ?L = "length ?lits"
  let ?k = "length (length_extension ?L)"
  let ?token = "ucast (enc ! src_ptr st) :: u32"
  let ?st0 = "st\<lparr>src_ptr := src_ptr st + 1, src_len := src_len st - 1\<rparr>"
  from final.prems(1) have inb: "\<not> length enc \<le> src_ptr st"
    and tk: "enc ! src_ptr st = token_byte ?L 0"
    and at: "bytes_at enc (src_ptr ?st0) (length_extension ?L @ ?lits)"
    by (simp_all add: final_bytes_def bytes_at_Cons)
  from final.prems(2) have sl: "src_len st = 1 + ?k + ?L"
    by (simp add: length_final_bytes)
  from final.hyps have ne: "?lits \<noteq> []" by simp
  have tok: "drop_bit 4 ?token = (of_nat (length_nibble ?L) :: u32)"
    unfolding tk by (rule token_literal_nibble)
  from sl have sl0: "?k + ?L \<le> src_len ?st0" by simp
  from final.prems(3,4,5) final.hyps have dl0: "?L \<le> dst_len ?st0" by simp
  from final.prems(4) have inv0: "dst_ptr ?st0 + dst_len ?st0 = length (dst ?st0)" by simp
  from final.prems(7) have small: "?L < 2 ^ 32" by simp
  note lit = decode_literals_run [OF tok at sl0 dl0 inv0 small ne]
  let ?d' = "take (dst_ptr st) (dst st) @ ?lits @ drop (dst_ptr st + ?L) (dst st)"
  from sl have lit': "decode_literals enc ?token ?st0 = Stop (Inr (dst_ptr st + ?L)) ?d'"
    unfolding lit by (simp add: Let_def)
  from sl have pos: "0 < src_len st" by simp
  from pos inb have "decode_loop enc st = (Inr (dst_ptr st + ?L), ?d')"
    by (subst decode_loop.simps) (simp only: if_True if_False Let_def lit' flow.case)
  moreover from final.prems(3) final.hyps have "dst_ptr st + ?L = length src" by simp
  moreover from final.prems(3,5,6) final.hyps have "take (length src) ?d' = src"
    by (simp add: min_absorb2)
  moreover from final.prems(3,4,5) final.hyps have "length ?d' = length (dst st)" by simp
  ultimately show ?case by simp
next
  case (seq ls mp off adj bs)
  let ?lits = "take (mp - ls) (drop ls src)"
  let ?L = "length ?lits"
  let ?k = "length (length_extension ?L)"
  let ?k' = "length (length_extension adj)"
  let ?token = "ucast (enc ! src_ptr st) :: u32"
  let ?st0 = "st\<lparr>src_ptr := src_ptr st + 1, src_len := src_len st - 1\<rparr>"
  from seq.hyps have L: "?L = mp - ls" by simp
  from seq.prems(1) have inb: "\<not> length enc \<le> src_ptr st"
    and tk: "enc ! src_ptr st = token_byte ?L adj"
    and at: "bytes_at enc (src_ptr ?st0) (length_extension ?L @ ?lits)"
    and at_m: "bytes_at enc (src_ptr st + 1 + ?k + ?L)
                 ([of_nat off, of_nat (off div 256)] @ length_extension adj)"
    and at_r: "bytes_at enc (src_ptr st + 1 + ?k + ?L + 2 + ?k') bs"
    unfolding sequence_bytes_def
    by (simp_all add: bytes_at_Cons bytes_at_append add.assoc)
  from seq.prems(2) have sl: "src_len st = 1 + ?k + ?L + 2 + ?k' + length bs"
    by (simp add: length_sequence_bytes)
  have tok: "drop_bit 4 ?token = (of_nat (length_nibble ?L) :: u32)"
    unfolding tk by (rule token_literal_nibble)
  have tokm: "?token AND 15 = (of_nat (length_nibble adj) :: u32)"
    unfolding tk by (rule token_match_nibble)
  have "\<exists>st1. decode_literals enc ?token ?st0 = Next st1 \<and> dst_ptr st1 = mp \<and>
          dst_ptr st1 + dst_len st1 = length (dst st1) \<and> length (dst st1) = length (dst st) \<and>
          take mp (dst st1) = take mp src \<and> src_ptr st1 = src_ptr st + 1 + ?k + ?L \<and>
          src_len st1 = 2 + ?k' + length bs"
  proof (cases "?lits = []")
    case True
    then have L0: "?L = 0" by (simp only: list.size(3))
    from decode_literals_empty [OF tok [unfolded L0]]
    have "decode_literals enc ?token ?st0 = Next ?st0" .
    moreover from L0 L seq.hyps(1) have "mp = ls" by simp
    moreover from L0 have "?k = 0" by (simp add: length_length_extension)
    ultimately show ?thesis
      using seq.prems(3,4,6) sl L0 by simp
  next
    case False
    from sl have sl0: "?k + ?L \<le> src_len ?st0" by simp
    from seq.prems(3,4,5) seq.hyps L have dl0: "?L \<le> dst_len ?st0" by simp
    from seq.prems(4) have inv0: "dst_ptr ?st0 + dst_len ?st0 = length (dst ?st0)" by simp
    from seq.prems(7) seq.hyps L have small: "?L < 2 ^ 32" by simp
    note lit = decode_literals_run [OF tok at sl0 dl0 inv0 small False]
    let ?d1 = "take (dst_ptr st) (dst st) @ ?lits @ drop (dst_ptr st + ?L) (dst st)"
    let ?st1 = "?st0\<lparr>dst := ?d1, dst_ptr := dst_ptr ?st0 + ?L, dst_len := dst_len ?st0 - ?L,
                      src_ptr := src_ptr ?st0 + ?k + ?L, src_len := src_len ?st0 - ?k - ?L\<rparr>"
    from sl have lit': "decode_literals enc ?token ?st0 = Next ?st1"
      unfolding lit by (simp add: Let_def)
    have "take mp ?d1 = take mp src"
    proof -
      from seq.prems(3,4,5) seq.hyps L have "length (take ls (dst st)) = ls" by simp
      from seq.prems(3,6) have "?d1 = take ls src @ ?lits @ drop (ls + ?L) (dst st)" by simp
      moreover have "take ls src @ ?lits = take mp src"
        using seq.hyps(1) by (metis le_add_diff_inverse take_add)
      ultimately have "?d1 = take mp src @ drop (ls + ?L) (dst st)" by simp
      moreover from seq.hyps have "length (take mp src) = mp" by simp
      ultimately show ?thesis by simp
    qed
    moreover from seq.prems(3,4,5) seq.hyps L have "length ?d1 = length (dst st)" by simp
    ultimately show ?thesis
      using lit' seq.prems(3,4,5) seq.hyps L sl by (intro exI [of _ ?st1]) simp
  qed
  then obtain st1 where
    l1: "decode_literals enc ?token ?st0 = Next st1" and dp1: "dst_ptr st1 = mp"
    and inv1: "dst_ptr st1 + dst_len st1 = length (dst st1)"
    and len1: "length (dst st1) = length (dst st)" and pre1: "take mp (dst st1) = take mp src"
    and sp1: "src_ptr st1 = src_ptr st + 1 + ?k + ?L" and sl1: "src_len st1 = 2 + ?k' + length bs"
    by blast
  from at_m sp1 have atm1: "bytes_at enc (src_ptr st1)
      ([of_nat off, of_nat (off div 256)] @ length_extension adj)" by simp
  from sl1 have slm: "2 + ?k' \<le> src_len st1" by simp
  from seq.hyps(3) dp1 have off1: "off \<le> dst_ptr st1" by simp
  from seq.hyps(5) seq.prems(5) inv1 len1 dp1 have dlm: "4 + adj \<le> dst_len st1" by simp
  from seq.hyps(5) seq.prems(7) have smallm: "4 + adj < 2 ^ 32" by simp
  from decode_match_run [OF tokm atm1 slm seq.hyps(2) off1 seq.hyps(4) dlm inv1 smallm]
  obtain d2 where
    m: "decode_match enc ?token st1 =
           Next (st1\<lparr>dst := d2, dst_ptr := dst_ptr st1 + (4 + adj),
                     dst_len := dst_len st1 - (4 + adj),
                     src_ptr := src_ptr st1 + 2 + ?k', src_len := src_len st1 - 2 - ?k'\<rparr>)"
    and len2: "length d2 = length (dst st1)"
    and pre2: "take (dst_ptr st1) d2 = take (dst_ptr st1) (dst st1)"
    and cp: "\<forall>i<4 + adj. d2 ! (dst_ptr st1 + i) = d2 ! (dst_ptr st1 - off + i)"
    by blast
  let ?st2 = "st1\<lparr>dst := d2, dst_ptr := dst_ptr st1 + (4 + adj),
                     dst_len := dst_len st1 - (4 + adj),
                     src_ptr := src_ptr st1 + 2 + ?k', src_len := src_len st1 - 2 - ?k'\<rparr>"
  from pre1 pre2 dp1 have "take mp d2 = take mp src" by simp
  then have pre3: "take (mp + (4 + adj)) d2 = take (mp + (4 + adj)) src"
    using cp [unfolded dp1] seq.hyps(6) seq.hyps(2,3,5)
  proof (rule overlap_copy_eq_src)
    from seq.hyps(5) seq.prems(5) len1 len2 show "mp + (4 + adj) \<le> length d2" by simp
  qed
  have "\<exists>d'. decode_loop enc ?st2 = (Inr (length src), d') \<and> take (length src) d' = src \<and>
              length d' = length (dst ?st2)"
  proof (rule seq.IH)
    from at_r sp1 show "bytes_at enc (src_ptr ?st2) bs" by (simp add: add.assoc)
    from sl1 show "src_len ?st2 = length bs" by simp
    from dp1 show "dst_ptr ?st2 = mp + (4 + adj)" by simp
    from inv1 dlm len2 show "dst_ptr ?st2 + dst_len ?st2 = length (dst ?st2)" by simp
    from seq.prems(5) len1 len2 show "length src \<le> length (dst ?st2)" by simp
    from pre3 show "take (mp + (4 + adj)) (dst ?st2) = take (mp + (4 + adj)) src" by simp
    from seq.prems(7) show "length src + 4 < 2 ^ 32" .
  qed
  moreover from sl have pos: "0 < src_len st" by simp
  from pos inb have "decode_loop enc st = decode_loop enc ?st2"
    by (subst decode_loop.simps) (simp only: if_True if_False Let_def l1 m flow.case)
  ultimately show ?case using len1 len2 by simp
qed

section \<open>The encoder writes a well-formed block\<close>

text \<open>Every entry of the hash table is an offset below \<open>b\<close>.\<close>

definition ht_below :: "(u32 \<Rightarrow> u32) \<Rightarrow> nat \<Rightarrow> bool" where
  "ht_below ht b \<longleftrightarrow> (\<forall>k. unat (ht k) < b)"

lemma ht_below_mono: "ht_below ht a \<Longrightarrow> a \<le> b \<Longrightarrow> ht_below ht b"
  unfolding ht_below_def by (meson less_le_trans)

lemma ht_below_upd:
  "ht_below ht b \<Longrightarrow> p < b \<Longrightarrow> p < 2 ^ 32 \<Longrightarrow> ht_below (ht(k := of_nat p)) b"
  unfolding ht_below_def by (simp add: unat_of_nat_small)

lemma ht_belowD: "ht_below ht b \<Longrightarrow> unat (ht k) < b"
  unfolding ht_below_def by blast

lemma find_match_inv:
  assumes "find_match src fll ht next_sp step step_counter next_hash = Some (sp1, m1, ht1)"
    and "ht_below ht next_sp" and "1 \<le> step" and "64 \<le> step_counter" and "fll < 2 ^ 32"
  shows "m1 < sp1 \<and> ht_below ht1 (sp1 + 1)"
  using assms
proof (induction src fll ht next_sp step step_counter next_hash rule: find_match.induct)
  case (1 src fll ht next_sp step step_counter next_hash)
  from "1.prems"(1) have le: "\<not> fll < next_sp + step"
    by (auto simp: find_match.simps [of src fll ht next_sp step step_counter next_hash] Let_def
             split: if_splits)
  with "1.prems"(5) have small: "next_sp < 2 ^ 32" by simp
  from "1.prems"(2) have m: "unat (ht next_hash) < next_sp" by (rule ht_belowD)
  have up: "ht_below (ht(next_hash := of_nat next_sp)) (next_sp + 1)"
    by (rule ht_below_upd [OF ht_below_mono [OF "1.prems"(2)]]) (use small in simp_all)
  show ?case
  proof (cases "int next_sp - int (unat (ht next_hash)) > 0xFFFF \<or>
                sflz4_private_peek_u32le src next_sp \<noteq>
                sflz4_private_peek_u32le src (unat (ht next_hash))")
    case True
    with "1.prems"(1) le have rec:
      "find_match src fll (ht(next_hash := of_nat next_sp)) (next_sp + step)
         (drop_bit 6 step_counter) (step_counter + 1)
         (sflz4_private_hash (sflz4_private_peek_u32le src (next_sp + step))) = Some (sp1, m1, ht1)"
      by (simp add: find_match.simps [of src fll ht next_sp step step_counter next_hash] Let_def)
    from up have p2: "ht_below (ht(next_hash := of_nat next_sp)) (next_sp + step)"
      by (rule ht_below_mono) (use "1.prems"(3) in simp)
    from "1.prems"(4) have p3: "1 \<le> drop_bit 6 step_counter"
      by (simp add: drop_bit_eq_div) 
    from "1.prems"(4) have p4: "64 \<le> step_counter + 1" by simp
    from "1.IH" [OF refl refl refl refl le refl refl refl True rec p2 p3 p4 "1.prems"(5)]
    show ?thesis .
  next
    case False
    with "1.prems"(1) le have "sp1 = next_sp" "m1 = unat (ht next_hash)"
      "ht1 = ht(next_hash := of_nat next_sp)"
      by (auto simp: find_match.simps [of src fll ht next_sp step step_counter next_hash] Let_def)
    with m up show ?thesis by blast
  qed
qed

lemma emit_literals_eq:
  "emit_literals src ls L w =
     w @ push_bit 4 (of_nat (length_nibble L)) # length_extension L @ take L (drop ls src)"
proof (cases "L < 15")
  case True
  then show ?thesis
    by (simp add: emit_literals_def length_nibble_def length_extension_def push_bit_of_nat)
next
  case False
  then show ?thesis
    by (simp add: emit_literals_def length_nibble_def length_extension_def)
qed

lemma emit_match_written:
  assumes "token < length (written st)"
  shows "written (emit_match src token match st) =
           (written st)[token := written st ! token OR
              of_nat (length_nibble
                (sflz4_private_longest_common_prefix src (4 + sp st) (4 + match) (length src - 5)))]
           @ [of_nat (sp st - match), of_nat ((sp st - match) div 256)]
           @ length_extension
                (sflz4_private_longest_common_prefix src (4 + sp st) (4 + match) (length src - 5))"
  using assms
  by (simp add: emit_match_def Let_def length_nibble_def length_extension_def
        list_update_append1 nth_append drop_bit_eq_div)

lemma literal_start_emit_match:
  "literal_start (emit_match src token match st) = sp (emit_match src token match st)"
  by (simp add: emit_match_def Let_def)

lemma hash_table_emit_match:
  "hash_table (emit_match src token match st) = hash_table st"
  by (simp add: emit_match_def Let_def)

lemma sequence_size:
  fixes ls L A :: nat
  shows "ls + ls div 255 + (1 + (if L < 15 then 0 else (L - 15) div 255 + 1) + L + 2 +
           (if A < 15 then 0 else (A - 15) div 255 + 1))
         \<le> (ls + L + (4 + A)) + (ls + L + (4 + A)) div 255"
  by (simp split: if_splits) arith

text \<open>
  What the encoder has written is good up to \<open>ls\<close>: any block that continues from \<open>ls\<close> can
  be put after it, and it is no longer than \<open>ls + ls div 255\<close>.
\<close>

definition enc_ok :: "byte list \<Rightarrow> byte list \<Rightarrow> nat \<Rightarrow> bool" where
  "enc_ok src w ls \<longleftrightarrow>
     (\<forall>bs. lz4_block src ls bs \<longrightarrow> lz4_block src 0 (w @ bs)) \<and> length w \<le> ls + ls div 255"

lemma enc_ok_seq:
  assumes "enc_ok src w0 ls" and "ls \<le> mp" and "0 < off" and "off \<le> mp" and "off \<le> 0xFFFF"
    and "mp + (4 + adj) \<le> length src"
    and "\<forall>j<4 + adj. src ! (mp + j) = src ! (mp - off + j)"
  shows "enc_ok src (w0 @ sequence_bytes (take (mp - ls) (drop ls src)) off adj) (mp + (4 + adj))"
proof -
  let ?lits = "take (mp - ls) (drop ls src)"
  from assms(2,6) have L: "length ?lits = mp - ls" by simp
  have "lz4_block src 0 ((w0 @ sequence_bytes ?lits off adj) @ bs)"
    if "lz4_block src (mp + (4 + adj)) bs" for bs
  proof -
    from assms(2-7) that have "lz4_block src ls (sequence_bytes ?lits off adj @ bs)"
      by (rule lz4_block.seq)
    with assms(1) show ?thesis by (simp add: enc_ok_def)
  qed
  moreover have "length (w0 @ sequence_bytes ?lits off adj)
                   \<le> (mp + (4 + adj)) + (mp + (4 + adj)) div 255"
  proof -
    from assms(1) have "length w0 \<le> ls + ls div 255" by (simp add: enc_ok_def)
    moreover have "length (w0 @ sequence_bytes ?lits off adj) =
        length w0 + (1 + (if mp - ls < 15 then 0 else (mp - ls - 15) div 255 + 1)
           + (mp - ls) + 2 + (if adj < 15 then 0 else (adj - 15) div 255 + 1))"
      by (simp only: length_append length_sequence_bytes length_length_extension L)
    ultimately have "length (w0 @ sequence_bytes ?lits off adj) \<le>
        ls + ls div 255 + (1 + (if mp - ls < 15 then 0 else (mp - ls - 15) div 255 + 1)
           + (mp - ls) + 2 + (if adj < 15 then 0 else (adj - 15) div 255 + 1))"
      by linarith
    also have "\<dots> \<le> (ls + (mp - ls) + (4 + adj)) + (ls + (mp - ls) + (4 + adj)) div 255"
      by (rule sequence_size)
    also from assms(2) have "ls + (mp - ls) = mp" by simp
    finally show ?thesis .
  qed
  ultimately show ?thesis by (simp add: enc_ok_def)
qed

lemma probe_next_match_fields:
  "probe_next_match src st = (st2, m) \<Longrightarrow>
     written st2 = written st \<and> sp st2 = sp st \<and> literal_start st2 = literal_start st"
  by (auto simp: probe_next_match_def Let_def)

lemma probe_next_match_spec:
  assumes "probe_next_match src st = (st2, m)"
    and "ht_below (hash_table st) (sp st - 1)" and "2 \<le> sp st" and "sp st < 2 ^ 32"
  shows "ht_below (hash_table st2) (sp st + 1) \<and>
         (\<forall>match'. m = Some match' \<longrightarrow>
            match' < sp st \<and> sp st - match' \<le> 0xFFFF \<and>
            sflz4_private_peek_u32le src (sp st) = sflz4_private_peek_u32le src match')"
proof -
  let ?h1 = "sflz4_private_hash (sflz4_private_peek_u32le src (sp st - 2))"
  let ?ht1 = "(hash_table st)(?h1 := of_nat (sp st - 2))"
  let ?h = "sflz4_private_hash (sflz4_private_peek_u32le src (sp st))"
  let ?old = "?ht1 ?h"
  let ?new = "of_nat (sp st) :: u32"
  let ?ht2 = "?ht1(?h := ?new)"
  from assms(2) have "ht_below (hash_table st) (sp st)" by (rule ht_below_mono) simp
  then have b1: "ht_below ?ht1 (sp st)"
    by (rule ht_below_upd) (use assms(3,4) in simp_all)
  then have old: "unat ?old < sp st" by (rule ht_belowD)
  from assms(4) have new: "unat ?new = sp st" by (rule unat_of_nat_small)
  from b1 have "ht_below ?ht1 (sp st + 1)" by (rule ht_below_mono) simp
  then have b2: "ht_below ?ht2 (sp st + 1)"
    by (rule ht_below_upd) (use assms(4) in simp_all)
  from old new have "?old \<le> ?new" by (simp add: word_le_nat_alt)
  then have sub: "unat (?new - ?old) = sp st - unat ?old"
    using new by (simp add: unat_sub)
  from assms(1) have st2: "hash_table st2 = ?ht2"
    and m: "m = (if ?new - ?old > 0xFFFF \<or>
                   sflz4_private_peek_u32le src (sp st) \<noteq>
                   sflz4_private_peek_u32le src (unat ?old)
                then None else Some (unat ?old))"
    by (auto simp: probe_next_match_def Let_def)
  have "match' < sp st \<and> sp st - match' \<le> 0xFFFF \<and>
        sflz4_private_peek_u32le src (sp st) = sflz4_private_peek_u32le src match'"
    if "m = Some match'" for match'
  proof -
    from that m have c: "\<not> ?new - ?old > 0xFFFF"
      "sflz4_private_peek_u32le src (sp st) = sflz4_private_peek_u32le src (unat ?old)"
      "match' = unat ?old"
      by (auto split: if_splits)
    from c(1) have "unat (?new - ?old) \<le> 0xFFFF"
      by (simp add: word_less_nat_alt not_less)
    with sub c old show ?thesis by simp
  qed
  with b2 st2 show ?thesis by simp
qed

lemma emit_match_seq:
  assumes w: "written st = w0 @ push_bit 4 (of_nat (length_nibble (sp st - ls))) #
                length_extension (sp st - ls) @ take (sp st - ls) (drop ls src)"
    and tok: "token = length w0" and ok: "enc_ok src w0 ls" and ls: "ls \<le> sp st"
    and m: "match < sp st" "sp st - match \<le> 0xFFFF"
    and four: "\<forall>j<4. src ! (sp st + j) = src ! (match + j)"
    and room: "sp st + 9 \<le> length src"
  shows "enc_ok src (written (emit_match src token match st)) (sp (emit_match src token match st))
         \<and> sp (emit_match src token match st) + 5 \<le> length src"
proof -
  let ?adj = "sflz4_private_longest_common_prefix src (4 + sp st) (4 + match) (length src - 5)"
  let ?off = "sp st - match"
  let ?lits = "take (sp st - ls) (drop ls src)"
  from ls room have L: "length ?lits = sp st - ls" by simp
  note lcp = longest_common_prefix_spec [OF refl, of src "4 + sp st" "4 + match" "length src - 5"]
  from lcp have "?adj \<le> length src - 5 - (4 + sp st)" by blast
  with room have fit: "sp st + (4 + ?adj) \<le> length src" "sp st + (4 + ?adj) + 5 \<le> length src"
    by simp_all
  from m have mo: "sp st - ?off = match" by simp
  have eqs: "\<forall>j<4 + ?adj. src ! (sp st + j) = src ! (sp st - ?off + j)"
  proof (intro allI impI)
    fix j assume j: "j < 4 + ?adj"
    show "src ! (sp st + j) = src ! (sp st - ?off + j)"
    proof (cases "j < 4")
      case True
      with four mo show ?thesis by simp
    next
      case False
      with j have "j - 4 < ?adj" by simp
      with lcp have "src ! (4 + sp st + (j - 4)) = src ! (4 + match + (j - 4))" by blast
      with False mo show ?thesis by (simp add: add.commute add.left_commute)
    qed
  qed
  from tok w have tl: "token < length (written st)" by simp
  have upd: "(written st)[token := written st ! token OR x] =
      w0 @ (push_bit 4 (of_nat (length_nibble (sp st - ls))) OR x) #
        length_extension (sp st - ls) @ ?lits" for x
    unfolding w tok by simp
  have sb: "sequence_bytes ?lits ?off ?adj =
      token_byte (sp st - ls) ?adj # length_extension (sp st - ls) @ ?lits @
      [of_nat ?off, of_nat (?off div 256)] @ length_extension ?adj"
    by (simp only: sequence_bytes_def L)
  have "written (emit_match src token match st) = w0 @ sequence_bytes ?lits ?off ?adj"
    unfolding emit_match_written [OF tl] upd sb token_byte_def by simp
  moreover from m have "0 < ?off" "?off \<le> sp st" by simp_all
  note enc_ok_seq [OF ok ls this m(2) fit(1) eqs]
  ultimately show ?thesis using fit(2) by (simp add: sp_emit_match add.assoc)
qed

lemma emit_matches_correct:
  assumes "written st = w0 @ push_bit 4 (of_nat (length_nibble (sp st - ls))) #
                length_extension (sp st - ls) @ take (sp st - ls) (drop ls src)"
    and "token = length w0" and "enc_ok src w0 ls" and "ls \<le> sp st"
    and "match < sp st" and "sp st - match \<le> 0xFFFF"
    and "\<forall>j<4. src ! (sp st + j) = src ! (match + j)"
    and "sp st + 9 \<le> length src"
    and "ht_below (hash_table st) (sp (emit_match src token match st) - 1)"
    and "length src < 2 ^ 32"
  shows "case emit_matches src token match st of
           Final_literals st' \<Rightarrow>
             enc_ok src (written st') (literal_start st') \<and> literal_start st' < length src
         | Search_again st' \<Rightarrow>
             enc_ok src (written st') (literal_start st') \<and> literal_start st' = sp st' \<and>
             sp st' < length src - 11 \<and> ht_below (hash_table st') (sp st' + 1)"
  using assms
proof (induction src token match st arbitrary: w0 ls rule: emit_matches.induct)
  case (1 src token match st)
  let ?st1 = "emit_match src token match st"
  note s = emit_match_seq [OF "1.prems"(1-8)]
  then have ok1: "enc_ok src (written ?st1) (sp ?st1)" and fit: "sp ?st1 + 5 \<le> length src"
    by simp_all
  have ls1: "literal_start ?st1 = sp ?st1" by (rule literal_start_emit_match)
  show ?case
  proof (cases "sp ?st1 \<ge> length src - 11")
    case True
    then have "emit_matches src token match st = Final_literals ?st1"
      by (subst emit_matches.simps) (simp add: Let_def)
    with ok1 fit ls1 show ?thesis by simp
  next
    case False
    obtain st2 m where p: "probe_next_match src ?st1 = (st2, m)"
      by (cases "probe_next_match src ?st1")
    note f = probe_next_match_fields [OF p]
    from "1.prems"(9) have hb: "ht_below (hash_table ?st1) (sp ?st1 - 1)"
      by (simp add: hash_table_emit_match)
    have ge: "2 \<le> sp ?st1" by (simp add: sp_emit_match)
    from fit "1.prems"(10) have small: "sp ?st1 < 2 ^ 32" by simp
    note ps = probe_next_match_spec [OF p hb ge small]
    show ?thesis
    proof (cases m)
      case None
      with False p have "emit_matches src token match st = Search_again st2"
        by (subst emit_matches.simps) (simp add: Let_def)
      with ok1 ls1 f ps False show ?thesis by simp
    next
      case (Some match')
      let ?st3 = "st2\<lparr>written := written st2 @ [0]\<rparr>"
      from Some False p have unf: "emit_matches src token match st =
          emit_matches src (length (written st2)) match' ?st3"
        by (subst emit_matches.simps) (simp add: Let_def)
      from ps Some have m': "match' < sp ?st1" "sp ?st1 - match' \<le> 0xFFFF"
        and pk: "sflz4_private_peek_u32le src (sp ?st1) = sflz4_private_peek_u32le src match'"
        by simp_all
      have p1: "written ?st3 = written ?st1 @
          push_bit 4 (of_nat (length_nibble (sp ?st3 - sp ?st1))) #
          length_extension (sp ?st3 - sp ?st1) @ take (sp ?st3 - sp ?st1) (drop (sp ?st1) src)"
        using f by (simp add: length_nibble_def length_extension_def)
      have p2: "length (written st2) = length (written ?st1)" using f by simp
      have p4: "sp ?st1 \<le> sp ?st3" using f by simp
      have p5: "match' < sp ?st3" "sp ?st3 - match' \<le> 0xFFFF" using f m' by simp_all
      have p7: "\<forall>j<4. src ! (sp ?st3 + j) = src ! (match' + j)"
        using peek_u32le_eq_nth [OF pk] f by simp
      from False have p8: "sp ?st3 + 9 \<le> length src" using f by simp
      have p9: "ht_below (hash_table ?st3)
                  (sp (emit_match src (length (written st2)) match' ?st3) - 1)"
      proof -
        from ps have "ht_below (hash_table ?st3) (sp ?st1 + 1)" by simp
        then show ?thesis
          by (rule ht_below_mono) (use f in \<open>simp add: sp_emit_match\<close>)
      qed
      from "1.IH" [OF refl refl False p [symmetric] Some p1 p2 ok1 p4 p5 p7 p8 p9 "1.prems"(10)]
      show ?thesis unfolding unf .
    qed
  qed
qed

lemma encode_loop_correct:
  assumes "enc_ok src (written st) (literal_start st)" and "literal_start st = sp st"
    and "sp st < length src" and "ht_below (hash_table st) (sp st + 1)"
    and "length src < 2 ^ 32"
  shows "enc_ok src (written (encode_loop src st)) (literal_start (encode_loop src st)) \<and>
         literal_start (encode_loop src st) < length src"
  using assms
proof (induction src st rule: encode_loop.induct)
  case (1 src st)
  let ?fm = "find_match src (length src - 11) (hash_table st) (sp st + 1) 1 (2 ^ 6)
               (sflz4_private_hash (sflz4_private_peek_u32le src (sp st + 1)))"
  show ?case
  proof (cases ?fm)
    case None
    then have "encode_loop src st = st"
      by (subst encode_loop.simps) (simp add: Let_def)
    with "1.prems" show ?thesis by simp
  next
    case (Some r)
    obtain sp1 match1 ht1 where r: "r = (sp1, match1, ht1)" by (cases r)
    with Some have fm: "?fm = Some (sp1, match1, ht1)" by simp
    from find_match_Some [OF fm] have
      sp1: "sp st + 1 \<le> sp1" "sp1 \<le> length src - 11" and
      pk: "sflz4_private_peek_u32le src sp1 = sflz4_private_peek_u32le src match1" and
      far: "int sp1 - int match1 \<le> 0xFFFF"
      by simp_all
    from "1.prems"(5) have fll: "length src - 11 < 2 ^ 32" by simp
    from find_match_inv [OF fm "1.prems"(4) _ _ fll] have
      m1: "match1 < sp1" and hb1: "ht_below ht1 (sp1 + 1)"
      by simp_all
    obtain sp2 match2 where eb: "extend_backwards src (literal_start st) sp1 match1 = (sp2, match2)"
      by (cases "extend_backwards src (literal_start st) sp1 match1")
    from extend_backwards_spec [OF eb] "1.prems"(2) sp1(1) obtain k where
      k: "sp1 = sp2 + k" "match1 = match2 + k" "\<forall>j<k. src ! (sp2 + j) = src ! (match2 + j)"
         "literal_start st \<le> sp2"
      by auto
    have eqk4: "\<forall>j<k + 4. src ! (sp2 + j) = src ! (match2 + j)"
    proof (intro allI impI)
      fix j assume j: "j < k + 4"
      show "src ! (sp2 + j) = src ! (match2 + j)"
      proof (cases "j < k")
        case True
        with k(3) show ?thesis by simp
      next
        case False
        with j have "j - k < 4" by simp
        from peek_u32le_eq_nth [OF pk this] False k(1,2) show ?thesis by simp
      qed
    qed
    let ?token = "length (written st)"
    let ?w = "emit_literals src (literal_start st) (sp2 - literal_start st) (written st)"
    let ?st1 = "st\<lparr>written := ?w, sp := sp2, hash_table := ht1\<rparr>"
    have p1: "written ?st1 = written st @
        push_bit 4 (of_nat (length_nibble (sp ?st1 - literal_start st))) #
        length_extension (sp ?st1 - literal_start st) @
        take (sp ?st1 - literal_start st) (drop (literal_start st) src)"
      by (simp add: emit_literals_eq)
    have p4: "literal_start st \<le> sp ?st1" using k(4) by simp
    from m1 k(1,2) have p5: "match2 < sp ?st1" by simp
    from far m1 k(1,2) have p6: "sp ?st1 - match2 \<le> 0xFFFF" by simp
    from eqk4 have p7: "\<forall>j<4. src ! (sp ?st1 + j) = src ! (match2 + j)" by simp
    from sp1 k(1) have p8: "sp ?st1 + 9 \<le> length src" by simp
    have p9: "ht_below (hash_table ?st1) (sp (emit_match src ?token match2 ?st1) - 1)"
    proof -
      have "\<forall>j<k. src ! (4 + sp2 + j) = src ! (4 + match2 + j)"
      proof (intro allI impI)
        fix j assume "j < k"
        then have "4 + j < k + 4" by simp
        with eqk4 have "src ! (sp2 + (4 + j)) = src ! (match2 + (4 + j))" by blast
        then show "src ! (4 + sp2 + j) = src ! (4 + match2 + j)"
          by (simp add: add.commute add.left_commute)
      qed
      moreover from sp1 k(1) have "k \<le> length src - 5 - (4 + sp2)" by simp
      ultimately have "k \<le> sflz4_private_longest_common_prefix src (4 + sp2) (4 + match2)
                              (length src - 5)"
        by (rule longest_common_prefix_ge)
      with k(1) have "sp1 + 1 \<le> sp (emit_match src ?token match2 ?st1) - 1"
        by (simp add: sp_emit_match)
      with hb1 show ?thesis by (simp add: ht_below_mono)
    qed
    note em = emit_matches_correct [OF p1 refl "1.prems"(1) p4 p5 p6 p7 p8 p9 "1.prems"(5)]
    show ?thesis
    proof (cases "emit_matches src ?token match2 ?st1")
      case (Final_literals st')
      with fm eb have "encode_loop src st = st'"
        by (subst encode_loop.simps) (simp add: Let_def)
      with em Final_literals show ?thesis by simp
    next
      case (Search_again st')
      with fm eb have unf: "encode_loop src st = encode_loop src st'"
        by (subst encode_loop.simps) (simp add: Let_def)
      from em Search_again have
        q: "enc_ok src (written st') (literal_start st')" "literal_start st' = sp st'"
           "sp st' < length src - 11" "ht_below (hash_table st') (sp st' + 1)"
        by auto
      from q(3) have q3: "sp st' < length src" by simp
      from "1.IH" [OF refl refl refl refl refl fm refl refl eb [symmetric] refl refl refl
                      Search_again q(1,2) q3 q(4) "1.prems"(5)]
      show ?thesis unfolding unf .
    qed
  qed
qed

section \<open>Encoding, then decoding\<close>

lemma token_byte_final: "token_byte L 0 = push_bit 4 (of_nat (length_nibble L))"
  by (simp add: token_byte_def length_nibble_def)

lemma emit_literals_final:
  "ls \<le> length src \<Longrightarrow>
     emit_literals src ls (length src - ls) w = w @ final_bytes (drop ls src)"
  by (simp add: emit_literals_eq final_bytes_def token_byte_final)

lemma enc_ok_initial: "enc_ok src [] 0"
  by (simp add: enc_ok_def)

lemma ht_below_initial: "ht_below (\<lambda>_. 0) 1"
  by (simp add: ht_below_def)

text \<open>The state with which \<open>final_literals\<close> is reached.\<close>

definition final_state :: "byte list \<Rightarrow> encode_state" where
  "final_state src =
     (let st0 = \<lparr>written = [], sp = 0, literal_start = 0, hash_table = (\<lambda>_. 0)\<rparr>
      in if length src > 12 then encode_loop src st0 else st0)"

lemma sflz4_block_encode_eq:
  "sflz4_block_encode dst_cap src =
     (if length src > 0x7E000000 then Inl error_src_is_too_long
      else if length src + length src div 255 + 16 > dst_cap then Inl error_dst_is_too_short
      else Inr (emit_literals src (literal_start (final_state src))
                  (length src - literal_start (final_state src)) (written (final_state src))))"
  by (simp add: encode_entry_unfold final_state_def Let_def)

lemma final_state_ok:
  assumes "src \<noteq> []" and "length src < 2 ^ 32"
  shows "enc_ok src (written (final_state src)) (literal_start (final_state src)) \<and>
         literal_start (final_state src) < length src"
proof (cases "length src > 12")
  case True
  let ?st0 = "\<lparr>written = [], sp = 0, literal_start = 0, hash_table = (\<lambda>_. 0 :: u32)\<rparr>"
  have "enc_ok src (written (encode_loop src ?st0)) (literal_start (encode_loop src ?st0)) \<and>
        literal_start (encode_loop src ?st0) < length src"
  proof (rule encode_loop_correct)
    show "enc_ok src (written ?st0) (literal_start ?st0)" by (simp add: enc_ok_initial)
    show "literal_start ?st0 = sp ?st0" by simp
    from True show "sp ?st0 < length src" by auto
    show "ht_below (hash_table ?st0) (sp ?st0 + 1)" by (simp add: ht_below_def)
    show "length src < 2 ^ 32" by (rule assms(2))
  qed
  with True show ?thesis by (simp add: final_state_def)
next
  case False
  with assms(1) show ?thesis by (simp add: final_state_def enc_ok_initial)
qed

lemma encode_gives_block:
  assumes "sflz4_block_encode dst_cap src = Inr out" and "src \<noteq> []"
  shows "lz4_block src 0 out \<and> length out \<le> length src + length src div 255 + 2"
proof -
  let ?st = "final_state src"
  let ?ls = "literal_start ?st"
  from assms(1) have len: "length src \<le> 0x7E000000"
    and out: "out = emit_literals src ?ls (length src - ?ls) (written ?st)"
    by (auto simp: sflz4_block_encode_eq split: if_splits)
  from len have small: "length src < 2 ^ 32" by simp
  from final_state_ok [OF assms(2) small] have
    ok: "enc_ok src (written ?st) ?ls" and ls: "?ls < length src"
    by simp_all
  from ls have out': "out = written ?st @ final_bytes (drop ?ls src)"
    unfolding out by (intro emit_literals_final) simp
  from ls have "lz4_block src ?ls (final_bytes (drop ?ls src))" by (rule lz4_block.final)
  with ok have blk: "lz4_block src 0 out" unfolding out' by (simp add: enc_ok_def)
  from ok have "length (written ?st) \<le> ?ls + ?ls div 255" by (simp add: enc_ok_def)
  moreover have "length (final_bytes (drop ?ls src)) \<le>
      1 + ((length src - ?ls) div 255 + 1) + (length src - ?ls)"
    by (simp add: length_final_bytes length_length_extension div_le_mono)
  ultimately have "length out \<le> ?ls + ?ls div 255 +
      (1 + ((length src - ?ls) div 255 + 1) + (length src - ?ls))"
    unfolding out' by simp
  also from ls have "\<dots> \<le> length src + length src div 255 + 2" by arith
  finally show ?thesis using blk by simp
qed

lemma round_trip:
  assumes "sflz4_block_encode dst_cap src = Inr out" and "src \<noteq> []"
    and "length out \<le> 0x00FFFFFF" and "length src \<le> length dst_buf"
  shows "\<exists>d'. sflz4_block_decode dst_buf out = (Inr (length src), d') \<and>
              take (length src) d' = src \<and> length d' = length dst_buf"
proof -
  from encode_gives_block [OF assms(1,2)] have blk: "lz4_block src 0 out" by simp
  from assms(1) have len: "length src \<le> 0x7E000000"
    by (auto simp: sflz4_block_encode_eq split: if_splits)
  let ?st = "\<lparr>dst = dst_buf, dst_ptr = 0, dst_len = length dst_buf,
              src_ptr = 0, src_len = length out\<rparr>"
  have "\<exists>d'. decode_loop out ?st = (Inr (length src), d') \<and> take (length src) d' = src \<and>
              length d' = length (dst ?st)"
  proof (rule decode_block [OF blk])
    show "bytes_at out (src_ptr ?st) out" by (simp add: bytes_at_def)
    show "src_len ?st = length out" by simp
    show "dst_ptr ?st = 0" by simp
    show "dst_ptr ?st + dst_len ?st = length (dst ?st)" by simp
    from assms(4) show "length src \<le> length (dst ?st)" by simp
    show "take 0 (dst ?st) = take 0 src" by simp
    from len show "length src + 4 < 2 ^ 32" by simp
  qed
  with assms(3) show ?thesis
    by (simp add: sflz4_block_decode_def SFLZ4_LZ4_BLOCK_DECODE_MAX_INCL_SRC_LEN_def)
qed

section \<open>The round trip\<close>

subsection \<open>A source without matches\<close>

text \<open>
  The bytes \<open>0xFF, h, l\<close> repeated, where \<open>h\<close> and \<open>l\<close> are the two digits in base 255 of the
  number of the group: no four consecutive bytes recur within 65535 bytes, so no match
  exists and the only well-formed block of such a source is one sequence of literals.
\<close>

definition counter_digit :: "nat \<Rightarrow> nat" where
  "counter_digit i =
     (if i mod 3 = 0 then 255
      else if i mod 3 = 1 then i div 3 div 255 mod 255
      else i div 3 mod 255)"

lemma counter_digit_less: "counter_digit i < 256"
proof -
  have "x mod 255 < 256" for x :: nat
    using mod_less_divisor [of 255 x] by simp
  then show ?thesis by (simp add: counter_digit_def)
qed

lemma counter_digit_marker: "counter_digit i = 255 \<longleftrightarrow> i mod 3 = 0"
proof -
  have "x mod 255 \<noteq> 255" for x :: nat
    using mod_less_divisor [of 255 x] by simp
  then show ?thesis by (simp add: counter_digit_def)
qed

lemma counter_digit_hi: "counter_digit (3 * g + 1) = g div 255 mod 255"
proof -
  have "(3 * g + 1) mod 3 = 1" "(3 * g + 1) div 3 = g" by presburger+
  then show ?thesis by (simp add: counter_digit_def)
qed

lemma counter_digit_lo: "counter_digit (3 * g + 2) = g mod 255"
proof -
  have "(3 * g + 2) mod 3 = 2" "(3 * g + 2) div 3 = g" by presburger+
  then show ?thesis by (simp add: counter_digit_def)
qed

lemma mod_add_same:
  assumes "(g + d) mod m = g mod (m :: nat)"
  shows "m dvd d"
proof -
  have "m dvd (g + d) - g"
    using assms mod_eq_dvd_iff_nat [of g "g + d" m] by simp
  then show ?thesis by simp
qed

lemma counter_windows_differ:
  assumes off: "0 < off" "off \<le> 65535"
    and eq: "\<forall>j<4. counter_digit (q + off + j) = counter_digit (q + j)"
  shows False
proof -
  obtain j where j: "j < 3" "(q + j) mod 3 = 0"
  proof -
    have "(q + 0) mod 3 = 0 \<or> (q + 1) mod 3 = 0 \<or> (q + 2) mod 3 = 0" by presburger
    then show ?thesis using that [of 0] that [of 1] that [of 2] by auto
  qed
  from j eq have "counter_digit (q + off + j) = counter_digit (q + j)" by simp
  with j(2) have "(q + off + j) mod 3 = 0"
    using counter_digit_marker [of "q + j"] counter_digit_marker [of "q + off + j"] by simp
  with j(2) have "off mod 3 = 0" by presburger
  then obtain d where d: "off = 3 * d" by auto
  obtain i where i: "i < 3" "(q + i) mod 3 = 1"
  proof -
    have "(q + 0) mod 3 = 1 \<or> (q + 1) mod 3 = 1 \<or> (q + 2) mod 3 = 1" by presburger
    then show ?thesis using that [of 0] that [of 1] that [of 2] by auto
  qed
  define g where "g = (q + i) div 3"
  from i(2) have qi: "q + i = 3 * g + 1" unfolding g_def by presburger
  from i(1) have "i < 4" and "i + 1 < 4" by simp_all
  with eq have e1: "counter_digit (q + off + i) = counter_digit (q + i)"
    and e2: "counter_digit (q + off + (i + 1)) = counter_digit (q + (i + 1))"
    by blast+
  have a1: "q + off + i = 3 * (g + d) + 1" using qi d by simp
  have a2: "q + off + (i + 1) = 3 * (g + d) + 2" using qi d by simp
  have a3: "q + (i + 1) = 3 * g + 2" using qi by simp
  from e1 have hi: "(g + d) div 255 mod 255 = g div 255 mod 255"
    unfolding a1 qi counter_digit_hi .
  from e2 have lo: "(g + d) mod 255 = g mod 255"
    unfolding a2 a3 counter_digit_lo .
  from lo have "255 dvd d" by (rule mod_add_same)
  then obtain e where e: "d = 255 * e" by auto
  have "(g + 255 * e) div 255 = g div 255 + e" by simp
  with hi have "(g div 255 + e) mod 255 = g div 255 mod 255" unfolding e by simp
  then have "255 dvd e" by (rule mod_add_same)
  then obtain c where c: "e = 255 * c" by auto
  from off show False unfolding d e c by (cases c) simp_all
qed

definition counter_bytes :: "nat \<Rightarrow> byte list" where
  "counter_bytes n = map (\<lambda>i. of_nat (counter_digit i)) [0..<n]"

lemma length_counter_bytes: "length (counter_bytes n) = n"
  by (simp add: counter_bytes_def)

lemma counter_bytes_nth_eq:
  assumes "a < n" and "b < n" and "counter_bytes n ! a = counter_bytes n ! b"
  shows "counter_digit a = counter_digit b"
proof -
  from assms have "(of_nat (counter_digit a) :: byte) = of_nat (counter_digit b)"
    by (simp add: counter_bytes_def)
  then have "unat (of_nat (counter_digit a) :: byte) = unat (of_nat (counter_digit b) :: byte)"
    by simp
  moreover have "unat (of_nat (counter_digit x) :: byte) = counter_digit x" for x
    using counter_digit_less [of x] by (simp add: unat_of_nat)
  ultimately show ?thesis by simp
qed

lemma literals_only_block:
  assumes nm: "\<And>mp off. 0 < off \<Longrightarrow> off \<le> mp \<Longrightarrow> off \<le> 0xFFFF \<Longrightarrow> mp + 4 \<le> length src \<Longrightarrow>
                 \<exists>j<4. src ! (mp + j) \<noteq> src ! (mp - off + j)"
    and blk: "lz4_block src ls bs"
  shows "bs = final_bytes (drop ls src)"
  using blk
proof (cases rule: lz4_block.cases)
  case final
  then show ?thesis by simp
next
  case (seq mp off adj bs')
  from seq(3,4,5,6) have "\<exists>j<4. src ! (mp + j) \<noteq> src ! (mp - off + j)"
    by (intro nm) simp_all
  with seq(7) show ?thesis by auto
qed

lemma counter_bytes_block:
  assumes "lz4_block (counter_bytes n) 0 bs"
  shows "bs = final_bytes (counter_bytes n)"
proof -
  have "\<exists>j<4. counter_bytes n ! (mp + j) \<noteq> counter_bytes n ! (mp - off + j)"
    if h: "0 < off" "off \<le> mp" "off \<le> 0xFFFF" "mp + 4 \<le> length (counter_bytes n)" for mp off
  proof (rule ccontr)
    assume "\<not> (\<exists>j<4. counter_bytes n ! (mp + j) \<noteq> counter_bytes n ! (mp - off + j))"
    then have eq: "\<forall>j<4. counter_bytes n ! (mp + j) = counter_bytes n ! (mp - off + j)" by simp
    have "\<forall>j<4. counter_digit (mp - off + off + j) = counter_digit (mp - off + j)"
    proof (intro allI impI)
      fix j :: nat assume j: "j < 4"
      with h have "mp + j < n" "mp - off + j < n" by (simp_all add: length_counter_bytes)
      moreover from eq j have "counter_bytes n ! (mp + j) = counter_bytes n ! (mp - off + j)"
        by simp
      ultimately have "counter_digit (mp + j) = counter_digit (mp - off + j)"
        by (rule counter_bytes_nth_eq)
      with h(2) show "counter_digit (mp - off + off + j) = counter_digit (mp - off + j)" by simp
    qed
    with h(1,3) show False by (intro counter_windows_differ [of off "mp - off"]) simp_all
  qed
  from literals_only_block [OF this assms] show ?thesis by simp
qed

lemma encode_counter_bytes:
  assumes "0 < n" and "n \<le> 0x7E000000" and "n + n div 255 + 16 \<le> dst_cap"
  shows "sflz4_block_encode dst_cap (counter_bytes n) = Inr (final_bytes (counter_bytes n))"
proof -
  from assms(2,3) obtain out where out: "sflz4_block_encode dst_cap (counter_bytes n) = Inr out"
    by (auto simp: sflz4_block_encode_eq length_counter_bytes)
  from assms(1) have "counter_bytes n \<noteq> []"
    using length_counter_bytes [of n] by auto
  from encode_gives_block [OF out this] have "lz4_block (counter_bytes n) 0 out" by simp
  then have "out = final_bytes (counter_bytes n)" by (rule counter_bytes_block)
  with out show ?thesis by simp
qed

subsection \<open>Encoding, then decoding, for every source\<close>

text \<open>
  Claim C1, as stated: for every byte sequence \<open>S\<close> of at most \<open>0x00FFFFFF\<close> bytes, encoding
  \<open>S\<close> into a destination of worst-case capacity and decoding the result into a
  destination of at least \<open>|S|\<close> bytes succeeds and returns exactly \<open>S\<close>.

  This fails in two places. For the source without matches of 16711679 bytes the encoder
  succeeds with a block of 16777216 bytes, one more than the decoder accepts, and the
  decoder answers with src-too-long. For the empty source the encoder writes the block
  \<open>[0x00]\<close>, and the decoder answers that block with invalid-data.
\<close>

theorem C1_round_trip_counterexample:
  "(length ([] :: byte list) \<le> 0x00FFFFFF \<and>
    sflz4_block_encode 16 [] = Inr [0x00] \<and>
    sflz4_block_decode [] [0x00] = (Inl error_invalid_data, [])) \<and>
   (length (counter_bytes 16711679) \<le> 0x00FFFFFF \<and>
    sflz4_block_encode_worst_case_dst_len (length (counter_bytes 16711679)) = Inr 16777230 \<and>
    sflz4_block_encode 16777230 (counter_bytes 16711679) =
      Inr (final_bytes (counter_bytes 16711679)) \<and>
    length (final_bytes (counter_bytes 16711679)) = 16777216 \<and>
    sflz4_block_decode (replicate 16711679 0x00) (final_bytes (counter_bytes 16711679)) =
      (Inl error_src_is_too_long, replicate 16711679 0x00))"
proof -
  have e: "sflz4_block_encode 16777230 (counter_bytes 16711679) =
             Inr (final_bytes (counter_bytes 16711679))"
    by (rule encode_counter_bytes) simp_all
  have l: "length (final_bytes (counter_bytes 16711679)) = 16777216"
    by (simp add: length_final_bytes length_length_extension length_counter_bytes)
  have d: "sflz4_block_decode (replicate 16711679 0x00) (final_bytes (counter_bytes 16711679)) =
     (Inl error_src_is_too_long, replicate 16711679 0x00)"
    by (simp add: sflz4_block_decode_def SFLZ4_LZ4_BLOCK_DECODE_MAX_INCL_SRC_LEN_def l)
  have w: "sflz4_block_encode_worst_case_dst_len (length (counter_bytes 16711679)) = Inr 16777230"
    by (simp add: sflz4_block_encode_worst_case_dst_len_def
          SFLZ4_LZ4_BLOCK_ENCODE_MAX_INCL_SRC_LEN_def length_counter_bytes)
  have z: "sflz4_block_encode 16 [] = Inr [0x00] \<and>
           sflz4_block_decode [] [0x00] = (Inl error_invalid_data, [])"
    by (simp add: sflz4_block_encode_eq final_state_def emit_literals_def decode_unfold)
  from e l d w z show ?thesis by (simp add: length_counter_bytes)
qed

text \<open>
  Claim C1, amended: for every non-empty byte sequence \<open>S\<close> of at most \<open>0x00FFFFFF\<close> bytes,
  \<open>sflz4_block_encode\<close> with a destination of worst-case capacity succeeds with a block
  \<open>B\<close>; \<open>B\<close> has at most \<open>0x00FFFFFF\<close> bytes whenever \<open>|S| \<le> 16711678\<close>; and whenever \<open>B\<close> has
  at most \<open>0x00FFFFFF\<close> bytes, the ceiling of the decoder on its source,
  \<open>sflz4_block_decode\<close> of \<open>B\<close> with a destination of at least \<open>|S|\<close> bytes succeeds,
  returns \<open>|S|\<close> and leaves exactly \<open>S\<close> in the first \<open>|S|\<close> bytes of the destination.
\<close>

theorem C1_round_trip_when_the_block_fits:
  "src \<noteq> [] \<and> length src \<le> 0x00FFFFFF \<and>
   length src + length src div 255 + 16 \<le> dst_cap \<and> length src \<le> length dst_buf
   \<longrightarrow>
   (\<exists>out. sflz4_block_encode dst_cap src = Inr out \<and>
      (length src \<le> 16711678 \<longrightarrow> length out \<le> 0x00FFFFFF) \<and>
      (length out \<le> 0x00FFFFFF \<longrightarrow>
         (\<exists>d'. sflz4_block_decode dst_buf out = (Inr (length src), d') \<and>
               take (length src) d' = src)))"
proof
  assume a: "src \<noteq> [] \<and> length src \<le> 0x00FFFFFF \<and>
   length src + length src div 255 + 16 \<le> dst_cap \<and> length src \<le> length dst_buf"
  then obtain out where out: "sflz4_block_encode dst_cap src = Inr out"
    by (auto simp: sflz4_block_encode_eq)
  from encode_gives_block [OF out] a
  have "length out \<le> length src + length src div 255 + 2" by simp
  then have fits: "length out \<le> 0x00FFFFFF" if "length src \<le> 16711678"
    using that by arith
  have "\<exists>d'. sflz4_block_decode dst_buf out = (Inr (length src), d') \<and> take (length src) d' = src"
    if "length out \<le> 0x00FFFFFF"
    using round_trip [OF out _ that] a by blast
  with out fits show "\<exists>out. sflz4_block_encode dst_cap src = Inr out \<and>
      (length src \<le> 16711678 \<longrightarrow> length out \<le> 0x00FFFFFF) \<and>
      (length out \<le> 0x00FFFFFF \<longrightarrow>
         (\<exists>d'. sflz4_block_decode dst_buf out = (Inr (length src), d') \<and>
               take (length src) d' = src))"
    by blast
qed

theorem C1_round_trip_when_the_block_fits_witness:
  "sflz4_block_encode 36
     [0x41, 0x42, 0x43, 0x44, 0x45, 0x41, 0x42, 0x43, 0x44, 0x45,
      0x41, 0x42, 0x43, 0x44, 0x45, 0x41, 0x42, 0x43, 0x44, 0x45] =
     Inr [0x56, 0x41, 0x42, 0x43, 0x44, 0x45, 0x05, 0x00, 0x50, 0x41, 0x42, 0x43, 0x44, 0x45] \<and>
   (\<exists>d'. sflz4_block_decode (replicate 20 0x00)
           [0x56, 0x41, 0x42, 0x43, 0x44, 0x45, 0x05, 0x00, 0x50, 0x41, 0x42, 0x43, 0x44, 0x45] =
           (Inr 20, d') \<and>
         take 20 d' =
           [0x41, 0x42, 0x43, 0x44, 0x45, 0x41, 0x42, 0x43, 0x44, 0x45,
            0x41, 0x42, 0x43, 0x44, 0x45, 0x41, 0x42, 0x43, 0x44, 0x45])"
  using C1_round_trip_when_the_block_fits
    [of "[0x41, 0x42, 0x43, 0x44, 0x45, 0x41, 0x42, 0x43, 0x44, 0x45,
          0x41, 0x42, 0x43, 0x44, 0x45, 0x41, 0x42, 0x43, 0x44, 0x45]" 36 "replicate 20 0x00"]
  by (simp add: encode_entry_unfold enc_eval sflz4_private_peek_u32le_def
        sflz4_private_hash_def SFLZ4_HASH_TABLE_SHIFT_def list_update_Cons_numeral
        numeral_2_eq_2 [symmetric] split del: if_split)


section \<open>The worst-case destination length\<close>

text \<open>
  Claim C3: \<open>sflz4_block_encode_worst_case_dst_len n\<close> fails with src-too-long exactly when
  \<open>n > 0x7E000000\<close> and returns \<open>n + n div 255 + 16\<close> otherwise; every successful
  \<open>sflz4_block_encode\<close> of \<open>S\<close> returns at most \<open>|S| + |S| div 255 + 16\<close> bytes; and the
  encoder does succeed for every \<open>S\<close> of at most \<open>0x7E000000\<close> bytes when the destination has
  that capacity.
\<close>

theorem C3_worst_case_bounds_the_output:
  "sflz4_block_encode_worst_case_dst_len n =
     (if n > 0x7E000000 then Inl error_src_is_too_long else Inr (n + n div 255 + 16)) \<and>
   (sflz4_block_encode dst_cap src = Inr out \<longrightarrow>
      length out \<le> length src + length src div 255 + 16) \<and>
   (length src \<le> 0x7E000000 \<and> length src + length src div 255 + 16 \<le> dst_cap \<longrightarrow>
      (\<exists>out. sflz4_block_encode dst_cap src = Inr out \<and>
             length out \<le> length src + length src div 255 + 16))"
proof -
  have b: "length out \<le> length src + length src div 255 + 16"
    if "sflz4_block_encode dst_cap src = Inr out" for dst_cap out
  proof (cases "src = []")
    case True
    with that show ?thesis
      by (auto simp: sflz4_block_encode_eq final_state_def emit_literals_def split: if_splits)
  next
    case False
    from encode_gives_block [OF that False] show ?thesis by simp
  qed
  have "\<exists>out. sflz4_block_encode dst_cap src = Inr out"
    if "length src \<le> 0x7E000000 \<and> length src + length src div 255 + 16 \<le> dst_cap"
    using that by (auto simp: sflz4_block_encode_eq)
  with b show ?thesis
    by (auto simp: sflz4_block_encode_worst_case_dst_len_def
                   SFLZ4_LZ4_BLOCK_ENCODE_MAX_INCL_SRC_LEN_def)
qed

theorem C3_worst_case_bounds_the_output_witness:
  "sflz4_block_encode_worst_case_dst_len 0x7E000000 = Inr 0x7E7E7E8E \<and>
   sflz4_block_encode_worst_case_dst_len 0x7E000001 = Inl error_src_is_too_long \<and>
   sflz4_block_encode 17 [0x41] = Inr [0x10, 0x41] \<and>
   length [0x10, 0x41 :: byte] \<le> length [0x41 :: byte] + length [0x41 :: byte] div 255 + 16"
  using C3_worst_case_bounds_the_output [of "0x7E000000" 17 "[0x41]" "[0x10, 0x41]"]
        C3_worst_case_bounds_the_output [of "0x7E000001" 17 "[0x41]" "[0x10, 0x41]"]
  by (simp add: sflz4_block_encode_eq final_state_def emit_literals_def)


section \<open>Short inputs\<close>

lemma byte_nibbles:
  assumes "n < 16"
  shows "drop_bit 4 (push_bit 4 (of_nat n) :: byte) = of_nat n \<and>
         (push_bit 4 (of_nat n) :: byte) AND 15 = 0"
proof -
  from assms have u: "unat (push_bit 4 (of_nat n) :: byte) = 16 * n"
    using unat_nibbles [of n 0] by simp
  have "unat (drop_bit 4 (push_bit 4 (of_nat n) :: byte)) = n"
    by (simp add: drop_bit_eq_div unat_div u)
  then have a: "drop_bit 4 (push_bit 4 (of_nat n) :: byte) = of_nat n"
    by (rule word_eq_of_natI)
  have "take_bit 4 (16 * n) = (16 * n) AND mask 4" by (rule take_bit_eq_mask)
  moreover have "mask 4 = (15 :: nat)" by (simp add: mask_eq_exp_minus_1)
  ultimately have "(16 * n) AND 15 = (16 * n) mod 16" by (simp add: take_bit_eq_mod)
  then have "unat ((push_bit 4 (of_nat n) :: byte) AND 15) = 0"
    by (simp add: unsigned_and_eq u)
  then have "(push_bit 4 (of_nat n) :: byte) AND 15 = 0"
    by (simp add: unat_eq_0)
  with a show ?thesis by simp
qed

text \<open>
  Claim C8: for every input \<open>S\<close> with \<open>1 \<le> |S| \<le> 12\<close> and a destination of worst-case
  capacity, \<open>sflz4_block_encode\<close> writes one literal-only sequence: a token byte whose high
  nibble is \<open>|S|\<close> and whose low nibble is 0, then the bytes of \<open>S\<close>, and nothing else, so
  \<open>|S| + 1\<close> bytes. The input \<open>A\<close> gives \<open>[0x10, 0x41]\<close>, and twelve bytes \<open>A\<close> give \<open>0xC0\<close>
  followed by twelve bytes \<open>A\<close>.
\<close>

theorem C8_short_input_is_one_literal_sequence:
  "(1 \<le> length src \<and> length src \<le> 12 \<and> length src + length src div 255 + 16 \<le> dst_cap
    \<longrightarrow>
    sflz4_block_encode dst_cap src = Inr (push_bit 4 (of_nat (length src)) # src) \<and>
    length (push_bit 4 (of_nat (length src)) # src) = length src + 1 \<and>
    drop_bit 4 (push_bit 4 (of_nat (length src)) :: byte) = of_nat (length src) \<and>
    (push_bit 4 (of_nat (length src)) :: byte) AND 15 = 0) \<and>
   sflz4_block_encode 17 [0x41] = Inr [0x10, 0x41] \<and>
   sflz4_block_encode 28 (replicate 12 0x41) = Inr (0xC0 # replicate 12 0x41)"
proof -
  have g: "sflz4_block_encode dst_cap src = Inr (push_bit 4 (of_nat (length src)) # src)"
    if "1 \<le> length src \<and> length src \<le> 12 \<and> length src + length src div 255 + 16 \<le> dst_cap"
    for dst_cap src
    using that
    by (simp add: sflz4_block_encode_eq final_state_def emit_literals_def push_bit_of_nat)
  have n: "drop_bit 4 (push_bit 4 (of_nat (length src)) :: byte) = of_nat (length src) \<and>
           (push_bit 4 (of_nat (length src)) :: byte) AND 15 = 0"
    if "length src \<le> 12"
    using that by (intro byte_nibbles) simp
  from g [of "[0x41]" 17] have e1: "sflz4_block_encode 17 [0x41] = Inr [0x10, 0x41]" by simp
  from g [of "replicate 12 0x41" 28]
  have e2: "sflz4_block_encode 28 (replicate 12 0x41) = Inr (0xC0 # replicate 12 0x41)" by simp
  from g n e1 e2 show ?thesis by simp
qed

theorem C8_short_input_is_one_literal_sequence_witness:
  "sflz4_block_encode 20 [0x53, 0x68, 0x65] = Inr [0x30, 0x53, 0x68, 0x65] \<and>
   drop_bit 4 (0x30 :: byte) = 3 \<and> (0x30 :: byte) AND 15 = 0"
  using C8_short_input_is_one_literal_sequence [of "[0x53, 0x68, 0x65]" 20]
  by simp


section \<open>Matches of offset 1\<close>

lemma replicate_block:
  assumes "lits \<noteq> []" and "fin \<noteq> []" and "4 \<le> k"
  shows "lz4_block (lits @ replicate k (last lits) @ fin) 0
           (sequence_bytes lits 1 (k - 4) @ final_bytes fin)"
proof -
  let ?src = "lits @ replicate k (last lits) @ fin"
  let ?mp = "length lits"
  from assms(3) have k: "?mp + (4 + (k - 4)) = ?mp + k" by simp
  have fin: "lz4_block ?src (?mp + (4 + (k - 4))) (final_bytes (drop (?mp + (4 + (k - 4))) ?src))"
    by (rule lz4_block.final) (use assms(2) k in simp)
  have dr: "drop (?mp + (4 + (k - 4))) ?src = fin" unfolding k by simp
  have eqs: "\<forall>j<4 + (k - 4). ?src ! (?mp + j) = ?src ! (?mp - 1 + j)"
  proof (intro allI impI)
    fix j assume "j < 4 + (k - 4)"
    with assms(3) have j: "j < k" by simp
    from assms(1) have pos: "0 < ?mp" by simp
    have a: "?src ! (?mp + j) = last lits" using j by (simp add: nth_append)
    have b: "?src ! (?mp - 1 + j) = last lits"
    proof (cases j)
      case 0
      with pos assms(1) show ?thesis by (simp add: nth_append last_conv_nth)
    next
      case (Suc i)
      with pos have idx: "?mp - 1 + j = ?mp + i" by simp
      from Suc j have "?src ! (?mp + i) = last lits" by (simp add: nth_append)
      then show ?thesis unfolding idx .
    qed
    from a b show "?src ! (?mp + j) = ?src ! (?mp - 1 + j)" by simp
  qed
  have "lz4_block ?src 0
          (sequence_bytes (take (?mp - 0) (drop 0 ?src)) 1 (k - 4) @
           final_bytes (drop (?mp + (4 + (k - 4))) ?src))"
  proof (rule lz4_block.seq [OF _ _ _ _ _ eqs fin])
    show "0 \<le> ?mp" by simp
    show "(0::nat) < 1" by simp
    from assms(1) show "1 \<le> ?mp" by (cases lits) simp_all
    show "(1::nat) \<le> 0xFFFF" by simp
    from assms(3) show "?mp + (4 + (k - 4)) \<le> length ?src" by simp
  qed
  then show ?thesis unfolding dr by simp
qed

lemma match_length_below_extension:
  "adj < 15 + 255 * length (length_extension adj)"
  by (simp add: length_length_extension) arith

lemma decode_match_offset_one:
  assumes tok: "token AND 15 = (of_nat (length_nibble (k - 4)) :: u32)"
    and at: "bytes_at enc (src_ptr st) ([0x01, 0x00] @ length_extension (k - 4))"
    and sl: "2 + length (length_extension (k - 4)) \<le> src_len st"
    and dp: "1 \<le> dst_ptr st" and k: "4 \<le> k" "k \<le> dst_len st" "k < 2 ^ 32"
    and inv: "dst_ptr st + dst_len st = length (dst st)"
  shows "\<exists>st'. decode_match enc token st = Next st' \<and> dst_ptr st' = dst_ptr st + k \<and>
           take (dst_ptr st') (dst st') =
             take (dst_ptr st) (dst st) @ replicate k (dst st ! (dst_ptr st - 1)) \<and>
           drop (dst_ptr st') (dst st') = drop (dst_ptr st') (dst st)"
proof -
  from k have k4: "4 + (k - 4) = k" by simp
  have at': "bytes_at enc (src_ptr st)
      ([of_nat 1, of_nat (1 div 256)] @ length_extension (k - 4))"
    using at by simp
  from k have dl: "4 + (k - 4) \<le> dst_len st" and small: "4 + (k - 4) < (2::nat) ^ 32"
    by simp_all
  from decode_match_run [OF tok at' sl _ dp _ dl inv small]
  obtain d' where
    m: "decode_match enc token st =
           Next (st\<lparr>dst := d', dst_ptr := dst_ptr st + k, dst_len := dst_len st - k,
                     src_ptr := src_ptr st + 2 + length (length_extension (k - 4)),
                     src_len := src_len st - 2 - length (length_extension (k - 4))\<rparr>)"
    and len: "length d' = length (dst st)"
    and pre: "take (dst_ptr st) d' = take (dst_ptr st) (dst st)"
    and post: "drop (dst_ptr st + k) d' = drop (dst_ptr st + k) (dst st)"
    and cp: "\<forall>i<k. d' ! (dst_ptr st + i) = d' ! (dst_ptr st - 1 + i)"
    unfolding k4 by auto
  have low: "d' ! j = dst st ! j" if "j < dst_ptr st" for j
    using pre that by (metis nth_take)
  have run: "i < k \<Longrightarrow> d' ! (dst_ptr st + i) = dst st ! (dst_ptr st - 1)" for i
  proof (induction i)
    case 0
    with cp have "d' ! (dst_ptr st + 0) = d' ! (dst_ptr st - 1 + 0)" by blast
    with low [of "dst_ptr st - 1"] dp show ?case by simp
  next
    case (Suc i)
    then have "i < k" by simp
    from Suc.prems cp have "d' ! (dst_ptr st + Suc i) = d' ! (dst_ptr st - 1 + Suc i)" by blast
    also from dp have "dst_ptr st - 1 + Suc i = dst_ptr st + i" by simp
    finally show ?case using Suc.IH [OF \<open>i < k\<close>] by simp
  qed
  from k(2) inv have le: "dst_ptr st + k \<le> length (dst st)" by simp
  have "take (dst_ptr st + k) d' =
          take (dst_ptr st) (dst st) @ replicate k (dst st ! (dst_ptr st - 1))"
  proof (rule nth_equalityI)
    show "length (take (dst_ptr st + k) d') =
            length (take (dst_ptr st) (dst st) @ replicate k (dst st ! (dst_ptr st - 1)))"
      using le len by simp
  next
    fix j assume "j < length (take (dst_ptr st + k) d')"
    with le len have j: "j < dst_ptr st + k" by simp
    show "take (dst_ptr st + k) d' ! j =
            (take (dst_ptr st) (dst st) @ replicate k (dst st ! (dst_ptr st - 1))) ! j"
    proof (cases "j < dst_ptr st")
      case True
      with j le low [of j] show ?thesis by (simp add: nth_append)
    next
      case False
      with j have "j - dst_ptr st < k" "j = dst_ptr st + (j - dst_ptr st)" by simp_all
      with run [of "j - dst_ptr st"] j le False show ?thesis
        by (simp add: nth_append)
    qed
  qed
  with m post show ?thesis by simp
qed

lemmas wire_format_unfold =
  sequence_bytes_def final_bytes_def token_byte_def length_nibble_def length_extension_def
  emit_length_extension.simps

text \<open>
  Claim C6: the match copy goes forward byte by byte from \<open>dst_ptr - offset\<close>, so a match of
  offset 1 and match length \<open>k\<close> appends \<open>k\<close> copies of the byte just before the destination
  cursor. Here \<open>k\<close> is the match length as the block encodes it: the low nibble of the token
  and the extension bytes after the offset encode \<open>k - 4\<close>.

  For the whole decoder: the block made of one sequence with the literals \<open>lits\<close>, offset 1
  and match length \<open>k\<close>, and of a last sequence with the literals \<open>fin\<close>, decodes to \<open>lits\<close>,
  then \<open>k\<close> copies of the last byte of \<open>lits\<close>, then \<open>fin\<close>.

  For the match step of any decoding: from a state with at least one byte written and room
  for \<open>k\<close> more, reading the offset 1 and the match length \<open>k\<close> succeeds, advances the
  destination cursor by exactly \<open>k\<close>, leaves the bytes before the old cursor and from the
  new cursor on as they were, and puts \<open>k\<close> copies of the byte just before the old cursor
  between them.
\<close>

theorem C6_offset_one_replicates_previous_byte:
  "(lits \<noteq> [] \<and> fin \<noteq> [] \<and> 4 \<le> k \<and>
    length lits + k + length fin \<le> length dst_buf \<and>
    length (sequence_bytes lits 1 (k - 4) @ final_bytes fin) \<le> 0x00FFFFFF
    \<longrightarrow>
    (\<exists>d'. sflz4_block_decode dst_buf (sequence_bytes lits 1 (k - 4) @ final_bytes fin)
             = (Inr (length lits + k + length fin), d') \<and>
          take (length lits + k + length fin) d' = lits @ replicate k (last lits) @ fin)) \<and>
   (token AND 15 = (of_nat (length_nibble (k - 4)) :: u32) \<and>
    bytes_at enc (src_ptr st) ([0x01, 0x00] @ length_extension (k - 4)) \<and>
    2 + length (length_extension (k - 4)) \<le> src_len st \<and>
    1 \<le> dst_ptr st \<and> 4 \<le> k \<and> k \<le> dst_len st \<and> k < 2 ^ 32 \<and>
    dst_ptr st + dst_len st = length (dst st)
    \<longrightarrow>
    (\<exists>st'. decode_match enc token st = Next st' \<and> dst_ptr st' = dst_ptr st + k \<and>
           take (dst_ptr st') (dst st') =
             take (dst_ptr st) (dst st) @ replicate k (dst st ! (dst_ptr st - 1)) \<and>
           drop (dst_ptr st') (dst st') = drop (dst_ptr st') (dst st)))"
proof (intro conjI impI)
  assume a: "lits \<noteq> [] \<and> fin \<noteq> [] \<and> 4 \<le> k \<and>
    length lits + k + length fin \<le> length dst_buf \<and>
    length (sequence_bytes lits 1 (k - 4) @ final_bytes fin) \<le> 0x00FFFFFF"
  let ?src = "lits @ replicate k (last lits) @ fin"
  let ?enc = "sequence_bytes lits 1 (k - 4) @ final_bytes fin"
  from a have blk: "lz4_block ?src 0 ?enc" by (intro replicate_block) simp_all
  let ?st = "\<lparr>dst = dst_buf, dst_ptr = 0, dst_len = length dst_buf,
              src_ptr = 0, src_len = length ?enc\<rparr>"
  have small: "length ?src + 4 < 2 ^ 32"
  proof -
    from a have "length lits + length fin + length (length_extension (k - 4)) \<le> 0x00FFFFFF"
      by (simp add: length_sequence_bytes length_final_bytes)
    moreover note match_length_below_extension [of "k - 4"]
    ultimately show ?thesis by simp
  qed
  have "\<exists>d'. decode_loop ?enc ?st = (Inr (length ?src), d') \<and> take (length ?src) d' = ?src \<and>
              length d' = length (dst ?st)"
  proof (rule decode_block [OF blk])
    show "bytes_at ?enc (src_ptr ?st) ?enc" by (simp add: bytes_at_def)
    show "src_len ?st = length ?enc" by simp
    show "dst_ptr ?st = 0" by simp
    show "dst_ptr ?st + dst_len ?st = length (dst ?st)" by simp
    from a show "length ?src \<le> length (dst ?st)" by simp
    show "take 0 (dst ?st) = take 0 ?src" by simp
    show "length ?src + 4 < 2 ^ 32" by (rule small)
  qed
  with a show "\<exists>d'. sflz4_block_decode dst_buf ?enc = (Inr (length lits + k + length fin), d') \<and>
          take (length lits + k + length fin) d' = ?src"
    by (auto simp: sflz4_block_decode_def SFLZ4_LZ4_BLOCK_DECODE_MAX_INCL_SRC_LEN_def add.assoc)
next
  assume "token AND 15 = (of_nat (length_nibble (k - 4)) :: u32) \<and>
    bytes_at enc (src_ptr st) ([0x01, 0x00] @ length_extension (k - 4)) \<and>
    2 + length (length_extension (k - 4)) \<le> src_len st \<and>
    1 \<le> dst_ptr st \<and> 4 \<le> k \<and> k \<le> dst_len st \<and> k < 2 ^ 32 \<and>
    dst_ptr st + dst_len st = length (dst st)"
  then show "\<exists>st'. decode_match enc token st = Next st' \<and> dst_ptr st' = dst_ptr st + k \<and>
           take (dst_ptr st') (dst st') =
             take (dst_ptr st) (dst st) @ replicate k (dst st ! (dst_ptr st - 1)) \<and>
           drop (dst_ptr st') (dst st') = drop (dst_ptr st') (dst st)"
    by (intro decode_match_offset_one) simp_all
qed

theorem C6_offset_one_replicates_previous_byte_witness:
  "(\<exists>d'. sflz4_block_decode (replicate 102 0x00) [0x1F, 0x41, 0x01, 0x00, 0x51, 0x10, 0x42]
           = (Inr 102, d') \<and>
         take 102 d' = [0x41] @ replicate 100 0x41 @ [0x42]) \<and>
   (\<exists>st'. decode_match [0x1F, 0x41, 0x01, 0x00, 0x51, 0x10, 0x42] 0x1F
            \<lparr>dst = 0x41 # replicate 101 0x00, dst_ptr = 1, dst_len = 101,
             src_ptr = 2, src_len = 5\<rparr> = Next st' \<and>
          dst_ptr st' = 101 \<and>
          take (dst_ptr st') (dst st') = [0x41] @ replicate 100 0x41 \<and>
          drop (dst_ptr st') (dst st') = drop (dst_ptr st') (0x41 # replicate 101 0x00))"
  using C6_offset_one_replicates_previous_byte
    [of "[0x41]" "[0x42]" 100 "replicate 102 0x00" "0x1F"
        "[0x1F, 0x41, 0x01, 0x00, 0x51, 0x10, 0x42]"
        "\<lparr>dst = 0x41 # replicate 101 0x00, dst_ptr = 1, dst_len = 101,
             src_ptr = 2, src_len = 5\<rparr>"]
  by (simp add: wire_format_unfold bytes_at_def)

section \<open>The example text\<close>

text \<open>
  The text of \<open>example.c\<close>, \<open>ssss_ptr\<close>, 158 bytes, and the 114 bytes that the comment at the
  head of \<open>example.c\<close> and the specification give as its encoding.
\<close>

definition ssss :: "byte list" where
  "ssss = [
     0x53, 0x68, 0x65, 0x20, 0x73, 0x65, 0x6C, 0x6C, 0x73, 0x20, 0x73, 0x65,
     0x61, 0x20, 0x73, 0x68, 0x65, 0x6C, 0x6C, 0x73, 0x20, 0x62, 0x79, 0x20,
     0x74, 0x68, 0x65, 0x20, 0x73, 0x65, 0x61, 0x20, 0x73, 0x68, 0x6F, 0x72,
     0x65, 0x2E, 0x0A, 0x54, 0x68, 0x65, 0x20, 0x73, 0x68, 0x65, 0x6C, 0x6C,
     0x73, 0x20, 0x73, 0x68, 0x65, 0x20, 0x73, 0x65, 0x6C, 0x6C, 0x73, 0x20,
     0x61, 0x72, 0x65, 0x20, 0x73, 0x75, 0x72, 0x65, 0x6C, 0x79, 0x20, 0x73,
     0x65, 0x61, 0x73, 0x68, 0x65, 0x6C, 0x6C, 0x73, 0x2E, 0x0A, 0x53, 0x6F,
     0x20, 0x69, 0x66, 0x20, 0x73, 0x68, 0x65, 0x20, 0x73, 0x65, 0x6C, 0x6C,
     0x73, 0x20, 0x73, 0x68, 0x65, 0x6C, 0x6C, 0x73, 0x20, 0x6F, 0x6E, 0x20,
     0x74, 0x68, 0x65, 0x20, 0x73, 0x65, 0x61, 0x73, 0x68, 0x6F, 0x72, 0x65,
     0x2C, 0x0A, 0x49, 0x27, 0x6D, 0x20, 0x73, 0x75, 0x72, 0x65, 0x20, 0x73,
     0x68, 0x65, 0x20, 0x73, 0x65, 0x6C, 0x6C, 0x73, 0x20, 0x73, 0x65, 0x61,
     0x73, 0x68, 0x6F, 0x72, 0x65, 0x20, 0x73, 0x68, 0x65, 0x6C, 0x6C, 0x73,
     0x2E, 0x0A]"

definition ssss_encoded :: "byte list" where
  "ssss_encoded = [
     0xF1, 0x01, 0x53, 0x68, 0x65, 0x20, 0x73, 0x65, 0x6C, 0x6C, 0x73, 0x20,
     0x73, 0x65, 0x61, 0x20, 0x73, 0x68, 0x0B, 0x00, 0x41, 0x62, 0x79, 0x20,
     0x74, 0x18, 0x00, 0x00, 0x12, 0x00, 0x60, 0x6F, 0x72, 0x65, 0x2E, 0x0A,
     0x54, 0x0F, 0x00, 0x02, 0x1D, 0x00, 0x10, 0x73, 0x0B, 0x00, 0x01, 0x27,
     0x00, 0xA0, 0x61, 0x72, 0x65, 0x20, 0x73, 0x75, 0x72, 0x65, 0x6C, 0x79,
     0x3D, 0x00, 0x02, 0x3C, 0x00, 0x70, 0x2E, 0x0A, 0x53, 0x6F, 0x20, 0x69,
     0x66, 0x2D, 0x00, 0x03, 0x26, 0x00, 0x02, 0x18, 0x00, 0x34, 0x20, 0x6F,
     0x6E, 0x54, 0x00, 0x01, 0x53, 0x00, 0x51, 0x2C, 0x0A, 0x49, 0x27, 0x6D,
     0x3E, 0x00, 0x08, 0x2B, 0x00, 0x03, 0x1D, 0x00, 0x90, 0x20, 0x73, 0x68,
     0x65, 0x6C, 0x6C, 0x73, 0x2E, 0x0A]"

text \<open>The bytes, the four-byte words and the hashes of the text, as tables.\<close>

lemma length_ssss: "length ssss = 158"
  by (simp add: ssss_def)

lemma ssss_nth:
  "ssss ! 0 = 0x53" "ssss ! 1 = 0x68" "ssss ! 2 = 0x65" "ssss ! 3 = 0x20"
  "ssss ! 4 = 0x73" "ssss ! 5 = 0x65" "ssss ! 6 = 0x6C" "ssss ! 7 = 0x6C"
  "ssss ! 8 = 0x73" "ssss ! 9 = 0x20" "ssss ! 10 = 0x73" "ssss ! 11 = 0x65"
  "ssss ! 12 = 0x61" "ssss ! 13 = 0x20" "ssss ! 14 = 0x73" "ssss ! 15 = 0x68"
  "ssss ! 16 = 0x65" "ssss ! 17 = 0x6C" "ssss ! 18 = 0x6C" "ssss ! 19 = 0x73"
  "ssss ! 20 = 0x20" "ssss ! 21 = 0x62" "ssss ! 22 = 0x79" "ssss ! 23 = 0x20"
  "ssss ! 24 = 0x74" "ssss ! 25 = 0x68" "ssss ! 26 = 0x65" "ssss ! 27 = 0x20"
  "ssss ! 28 = 0x73" "ssss ! 29 = 0x65" "ssss ! 30 = 0x61" "ssss ! 31 = 0x20"
  "ssss ! 32 = 0x73" "ssss ! 33 = 0x68" "ssss ! 34 = 0x6F" "ssss ! 35 = 0x72"
  "ssss ! 36 = 0x65" "ssss ! 37 = 0x2E" "ssss ! 38 = 0x0A" "ssss ! 39 = 0x54"
  "ssss ! 40 = 0x68" "ssss ! 41 = 0x65" "ssss ! 42 = 0x20" "ssss ! 43 = 0x73"
  "ssss ! 44 = 0x68" "ssss ! 45 = 0x65" "ssss ! 46 = 0x6C" "ssss ! 47 = 0x6C"
  "ssss ! 48 = 0x73" "ssss ! 49 = 0x20" "ssss ! 50 = 0x73" "ssss ! 51 = 0x68"
  "ssss ! 52 = 0x65" "ssss ! 53 = 0x20" "ssss ! 54 = 0x73" "ssss ! 55 = 0x65"
  "ssss ! 56 = 0x6C" "ssss ! 57 = 0x6C" "ssss ! 58 = 0x73" "ssss ! 59 = 0x20"
  "ssss ! 60 = 0x61" "ssss ! 61 = 0x72" "ssss ! 62 = 0x65" "ssss ! 63 = 0x20"
  "ssss ! 64 = 0x73" "ssss ! 65 = 0x75" "ssss ! 66 = 0x72" "ssss ! 67 = 0x65"
  "ssss ! 68 = 0x6C" "ssss ! 69 = 0x79" "ssss ! 70 = 0x20" "ssss ! 71 = 0x73"
  "ssss ! 72 = 0x65" "ssss ! 73 = 0x61" "ssss ! 74 = 0x73" "ssss ! 75 = 0x68"
  "ssss ! 76 = 0x65" "ssss ! 77 = 0x6C" "ssss ! 78 = 0x6C" "ssss ! 79 = 0x73"
  "ssss ! 80 = 0x2E" "ssss ! 81 = 0x0A" "ssss ! 82 = 0x53" "ssss ! 83 = 0x6F"
  "ssss ! 84 = 0x20" "ssss ! 85 = 0x69" "ssss ! 86 = 0x66" "ssss ! 87 = 0x20"
  "ssss ! 88 = 0x73" "ssss ! 89 = 0x68" "ssss ! 90 = 0x65" "ssss ! 91 = 0x20"
  "ssss ! 92 = 0x73" "ssss ! 93 = 0x65" "ssss ! 94 = 0x6C" "ssss ! 95 = 0x6C"
  "ssss ! 96 = 0x73" "ssss ! 97 = 0x20" "ssss ! 98 = 0x73" "ssss ! 99 = 0x68"
  "ssss ! 100 = 0x65" "ssss ! 101 = 0x6C" "ssss ! 102 = 0x6C" "ssss ! 103 = 0x73"
  "ssss ! 104 = 0x20" "ssss ! 105 = 0x6F" "ssss ! 106 = 0x6E" "ssss ! 107 = 0x20"
  "ssss ! 108 = 0x74" "ssss ! 109 = 0x68" "ssss ! 110 = 0x65" "ssss ! 111 = 0x20"
  "ssss ! 112 = 0x73" "ssss ! 113 = 0x65" "ssss ! 114 = 0x61" "ssss ! 115 = 0x73"
  "ssss ! 116 = 0x68" "ssss ! 117 = 0x6F" "ssss ! 118 = 0x72" "ssss ! 119 = 0x65"
  "ssss ! 120 = 0x2C" "ssss ! 121 = 0x0A" "ssss ! 122 = 0x49" "ssss ! 123 = 0x27"
  "ssss ! 124 = 0x6D" "ssss ! 125 = 0x20" "ssss ! 126 = 0x73" "ssss ! 127 = 0x75"
  "ssss ! 128 = 0x72" "ssss ! 129 = 0x65" "ssss ! 130 = 0x20" "ssss ! 131 = 0x73"
  "ssss ! 132 = 0x68" "ssss ! 133 = 0x65" "ssss ! 134 = 0x20" "ssss ! 135 = 0x73"
  "ssss ! 136 = 0x65" "ssss ! 137 = 0x6C" "ssss ! 138 = 0x6C" "ssss ! 139 = 0x73"
  "ssss ! 140 = 0x20" "ssss ! 141 = 0x73" "ssss ! 142 = 0x65" "ssss ! 143 = 0x61"
  "ssss ! 144 = 0x73" "ssss ! 145 = 0x68" "ssss ! 146 = 0x6F" "ssss ! 147 = 0x72"
  "ssss ! 148 = 0x65" "ssss ! 149 = 0x20" "ssss ! 150 = 0x73" "ssss ! 151 = 0x68"
  "ssss ! 152 = 0x65" "ssss ! 153 = 0x6C" "ssss ! 154 = 0x6C" "ssss ! 155 = 0x73"
  "ssss ! 156 = 0x2E" "ssss ! 157 = 0x0A"
  by (simp_all add: ssss_def)

lemma ssss_nth_Suc0: "ssss ! Suc 0 = 0x68" "ssss ! Suc (Suc 0) = 0x65" "ssss ! Suc (Suc (Suc 0)) = 0x20" "ssss ! Suc (Suc (Suc (Suc 0))) = 0x73"
  by (simp_all add: ssss_def)

lemma peek_ssss:
  "sflz4_private_peek_u32le ssss 0 = 0x20656853" "sflz4_private_peek_u32le ssss 1 = 0x73206568"
  "sflz4_private_peek_u32le ssss 2 = 0x65732065" "sflz4_private_peek_u32le ssss 3 = 0x6C657320"
  "sflz4_private_peek_u32le ssss 4 = 0x6C6C6573" "sflz4_private_peek_u32le ssss 5 = 0x736C6C65"
  "sflz4_private_peek_u32le ssss 6 = 0x20736C6C" "sflz4_private_peek_u32le ssss 7 = 0x7320736C"
  "sflz4_private_peek_u32le ssss 8 = 0x65732073" "sflz4_private_peek_u32le ssss 9 = 0x61657320"
  "sflz4_private_peek_u32le ssss 10 = 0x20616573" "sflz4_private_peek_u32le ssss 11 = 0x73206165"
  "sflz4_private_peek_u32le ssss 12 = 0x68732061" "sflz4_private_peek_u32le ssss 13 = 0x65687320"
  "sflz4_private_peek_u32le ssss 14 = 0x6C656873" "sflz4_private_peek_u32le ssss 15 = 0x6C6C6568"
  "sflz4_private_peek_u32le ssss 16 = 0x736C6C65" "sflz4_private_peek_u32le ssss 17 = 0x20736C6C"
  "sflz4_private_peek_u32le ssss 18 = 0x6220736C" "sflz4_private_peek_u32le ssss 19 = 0x79622073"
  "sflz4_private_peek_u32le ssss 20 = 0x20796220" "sflz4_private_peek_u32le ssss 21 = 0x74207962"
  "sflz4_private_peek_u32le ssss 22 = 0x68742079" "sflz4_private_peek_u32le ssss 23 = 0x65687420"
  "sflz4_private_peek_u32le ssss 24 = 0x20656874" "sflz4_private_peek_u32le ssss 25 = 0x73206568"
  "sflz4_private_peek_u32le ssss 26 = 0x65732065" "sflz4_private_peek_u32le ssss 27 = 0x61657320"
  "sflz4_private_peek_u32le ssss 28 = 0x20616573" "sflz4_private_peek_u32le ssss 29 = 0x73206165"
  "sflz4_private_peek_u32le ssss 30 = 0x68732061" "sflz4_private_peek_u32le ssss 31 = 0x6F687320"
  "sflz4_private_peek_u32le ssss 32 = 0x726F6873" "sflz4_private_peek_u32le ssss 33 = 0x65726F68"
  "sflz4_private_peek_u32le ssss 34 = 0x2E65726F" "sflz4_private_peek_u32le ssss 35 = 0x0A2E6572"
  "sflz4_private_peek_u32le ssss 36 = 0x540A2E65" "sflz4_private_peek_u32le ssss 37 = 0x68540A2E"
  "sflz4_private_peek_u32le ssss 38 = 0x6568540A" "sflz4_private_peek_u32le ssss 39 = 0x20656854"
  "sflz4_private_peek_u32le ssss 40 = 0x73206568" "sflz4_private_peek_u32le ssss 41 = 0x68732065"
  "sflz4_private_peek_u32le ssss 42 = 0x65687320" "sflz4_private_peek_u32le ssss 43 = 0x6C656873"
  "sflz4_private_peek_u32le ssss 44 = 0x6C6C6568" "sflz4_private_peek_u32le ssss 45 = 0x736C6C65"
  "sflz4_private_peek_u32le ssss 46 = 0x20736C6C" "sflz4_private_peek_u32le ssss 47 = 0x7320736C"
  "sflz4_private_peek_u32le ssss 48 = 0x68732073" "sflz4_private_peek_u32le ssss 49 = 0x65687320"
  "sflz4_private_peek_u32le ssss 50 = 0x20656873" "sflz4_private_peek_u32le ssss 51 = 0x73206568"
  "sflz4_private_peek_u32le ssss 52 = 0x65732065" "sflz4_private_peek_u32le ssss 53 = 0x6C657320"
  "sflz4_private_peek_u32le ssss 54 = 0x6C6C6573" "sflz4_private_peek_u32le ssss 55 = 0x736C6C65"
  "sflz4_private_peek_u32le ssss 56 = 0x20736C6C" "sflz4_private_peek_u32le ssss 57 = 0x6120736C"
  "sflz4_private_peek_u32le ssss 58 = 0x72612073" "sflz4_private_peek_u32le ssss 59 = 0x65726120"
  "sflz4_private_peek_u32le ssss 60 = 0x20657261" "sflz4_private_peek_u32le ssss 61 = 0x73206572"
  "sflz4_private_peek_u32le ssss 62 = 0x75732065" "sflz4_private_peek_u32le ssss 63 = 0x72757320"
  "sflz4_private_peek_u32le ssss 64 = 0x65727573" "sflz4_private_peek_u32le ssss 65 = 0x6C657275"
  "sflz4_private_peek_u32le ssss 66 = 0x796C6572" "sflz4_private_peek_u32le ssss 67 = 0x20796C65"
  "sflz4_private_peek_u32le ssss 68 = 0x7320796C" "sflz4_private_peek_u32le ssss 69 = 0x65732079"
  "sflz4_private_peek_u32le ssss 70 = 0x61657320" "sflz4_private_peek_u32le ssss 71 = 0x73616573"
  "sflz4_private_peek_u32le ssss 72 = 0x68736165" "sflz4_private_peek_u32le ssss 73 = 0x65687361"
  "sflz4_private_peek_u32le ssss 74 = 0x6C656873" "sflz4_private_peek_u32le ssss 75 = 0x6C6C6568"
  "sflz4_private_peek_u32le ssss 76 = 0x736C6C65" "sflz4_private_peek_u32le ssss 77 = 0x2E736C6C"
  "sflz4_private_peek_u32le ssss 78 = 0x0A2E736C" "sflz4_private_peek_u32le ssss 79 = 0x530A2E73"
  "sflz4_private_peek_u32le ssss 80 = 0x6F530A2E" "sflz4_private_peek_u32le ssss 81 = 0x206F530A"
  "sflz4_private_peek_u32le ssss 82 = 0x69206F53" "sflz4_private_peek_u32le ssss 83 = 0x6669206F"
  "sflz4_private_peek_u32le ssss 84 = 0x20666920" "sflz4_private_peek_u32le ssss 85 = 0x73206669"
  "sflz4_private_peek_u32le ssss 86 = 0x68732066" "sflz4_private_peek_u32le ssss 87 = 0x65687320"
  "sflz4_private_peek_u32le ssss 88 = 0x20656873" "sflz4_private_peek_u32le ssss 89 = 0x73206568"
  "sflz4_private_peek_u32le ssss 90 = 0x65732065" "sflz4_private_peek_u32le ssss 91 = 0x6C657320"
  "sflz4_private_peek_u32le ssss 92 = 0x6C6C6573" "sflz4_private_peek_u32le ssss 93 = 0x736C6C65"
  "sflz4_private_peek_u32le ssss 94 = 0x20736C6C" "sflz4_private_peek_u32le ssss 95 = 0x7320736C"
  "sflz4_private_peek_u32le ssss 96 = 0x68732073" "sflz4_private_peek_u32le ssss 97 = 0x65687320"
  "sflz4_private_peek_u32le ssss 98 = 0x6C656873" "sflz4_private_peek_u32le ssss 99 = 0x6C6C6568"
  "sflz4_private_peek_u32le ssss 100 = 0x736C6C65" "sflz4_private_peek_u32le ssss 101 = 0x20736C6C"
  "sflz4_private_peek_u32le ssss 102 = 0x6F20736C" "sflz4_private_peek_u32le ssss 103 = 0x6E6F2073"
  "sflz4_private_peek_u32le ssss 104 = 0x206E6F20" "sflz4_private_peek_u32le ssss 105 = 0x74206E6F"
  "sflz4_private_peek_u32le ssss 106 = 0x6874206E" "sflz4_private_peek_u32le ssss 107 = 0x65687420"
  "sflz4_private_peek_u32le ssss 108 = 0x20656874" "sflz4_private_peek_u32le ssss 109 = 0x73206568"
  "sflz4_private_peek_u32le ssss 110 = 0x65732065" "sflz4_private_peek_u32le ssss 111 = 0x61657320"
  "sflz4_private_peek_u32le ssss 112 = 0x73616573" "sflz4_private_peek_u32le ssss 113 = 0x68736165"
  "sflz4_private_peek_u32le ssss 114 = 0x6F687361" "sflz4_private_peek_u32le ssss 115 = 0x726F6873"
  "sflz4_private_peek_u32le ssss 116 = 0x65726F68" "sflz4_private_peek_u32le ssss 117 = 0x2C65726F"
  "sflz4_private_peek_u32le ssss 118 = 0x0A2C6572" "sflz4_private_peek_u32le ssss 119 = 0x490A2C65"
  "sflz4_private_peek_u32le ssss 120 = 0x27490A2C" "sflz4_private_peek_u32le ssss 121 = 0x6D27490A"
  "sflz4_private_peek_u32le ssss 122 = 0x206D2749" "sflz4_private_peek_u32le ssss 123 = 0x73206D27"
  "sflz4_private_peek_u32le ssss 124 = 0x7573206D" "sflz4_private_peek_u32le ssss 125 = 0x72757320"
  "sflz4_private_peek_u32le ssss 126 = 0x65727573" "sflz4_private_peek_u32le ssss 127 = 0x20657275"
  "sflz4_private_peek_u32le ssss 128 = 0x73206572" "sflz4_private_peek_u32le ssss 129 = 0x68732065"
  "sflz4_private_peek_u32le ssss 130 = 0x65687320" "sflz4_private_peek_u32le ssss 131 = 0x20656873"
  "sflz4_private_peek_u32le ssss 132 = 0x73206568" "sflz4_private_peek_u32le ssss 133 = 0x65732065"
  "sflz4_private_peek_u32le ssss 134 = 0x6C657320" "sflz4_private_peek_u32le ssss 135 = 0x6C6C6573"
  "sflz4_private_peek_u32le ssss 136 = 0x736C6C65" "sflz4_private_peek_u32le ssss 137 = 0x20736C6C"
  "sflz4_private_peek_u32le ssss 138 = 0x7320736C" "sflz4_private_peek_u32le ssss 139 = 0x65732073"
  "sflz4_private_peek_u32le ssss 140 = 0x61657320" "sflz4_private_peek_u32le ssss 141 = 0x73616573"
  "sflz4_private_peek_u32le ssss 142 = 0x68736165" "sflz4_private_peek_u32le ssss 143 = 0x6F687361"
  "sflz4_private_peek_u32le ssss 144 = 0x726F6873" "sflz4_private_peek_u32le ssss 145 = 0x65726F68"
  "sflz4_private_peek_u32le ssss 146 = 0x2065726F" "sflz4_private_peek_u32le ssss 147 = 0x73206572"
  "sflz4_private_peek_u32le ssss 148 = 0x68732065" "sflz4_private_peek_u32le ssss 149 = 0x65687320"
  "sflz4_private_peek_u32le ssss 150 = 0x6C656873" "sflz4_private_peek_u32le ssss 151 = 0x6C6C6568"
  "sflz4_private_peek_u32le ssss 152 = 0x736C6C65" "sflz4_private_peek_u32le ssss 153 = 0x2E736C6C"
  "sflz4_private_peek_u32le ssss 154 = 0x0A2E736C"
  by (simp_all add: sflz4_private_peek_u32le_def ssss_nth ssss_nth_Suc0)

lemma peek_ssss_Suc0: "sflz4_private_peek_u32le ssss (Suc 0) = 0x73206568"
  by (simp add: sflz4_private_peek_u32le_def ssss_nth ssss_nth_Suc0)

lemma hash_ssss:
  "sflz4_private_hash 0x0A2C6572 = 0x2C2" "sflz4_private_hash 0x0A2E6572 = 0x1F8"
  "sflz4_private_hash 0x0A2E736C = 0x72D" "sflz4_private_hash 0x20616573 = 0x31F"
  "sflz4_private_hash 0x20656853 = 0xF84" "sflz4_private_hash 0x20656854 = 0x967"
  "sflz4_private_hash 0x20656873 = 0xBF3" "sflz4_private_hash 0x20656874 = 0x5D6"
  "sflz4_private_hash 0x20657261 = 0xCA0" "sflz4_private_hash 0x2065726F = 0x711"
  "sflz4_private_hash 0x20657275 = 0x266" "sflz4_private_hash 0x20666920 = 0x245"
  "sflz4_private_hash 0x206D2749 = 0x81B" "sflz4_private_hash 0x206E6F20 = 0x3EC"
  "sflz4_private_hash 0x206F530A = 0x0E5" "sflz4_private_hash 0x20736C6C = 0xF14"
  "sflz4_private_hash 0x20796220 = 0xA82" "sflz4_private_hash 0x20796C65 = 0x77E"
  "sflz4_private_hash 0x27490A2C = 0x06C" "sflz4_private_hash 0x2C65726F = 0xBD1"
  "sflz4_private_hash 0x2E65726F = 0x1F1" "sflz4_private_hash 0x2E736C6C = 0x9F4"
  "sflz4_private_hash 0x490A2C65 = 0x2EB" "sflz4_private_hash 0x530A2E73 = 0x2EB"
  "sflz4_private_hash 0x540A2E65 = 0x38A" "sflz4_private_hash 0x6120736C = 0xF23"
  "sflz4_private_hash 0x61657320 = 0xC66" "sflz4_private_hash 0x6220736C = 0xA33"
  "sflz4_private_hash 0x6568540A = 0xA70" "sflz4_private_hash 0x65687320 = 0xF78"
  "sflz4_private_hash 0x65687361 = 0x239" "sflz4_private_hash 0x65687420 = 0x2EF"
  "sflz4_private_hash 0x65726120 = 0xD1D" "sflz4_private_hash 0x65726F68 = 0x5A1"
  "sflz4_private_hash 0x65727573 = 0x735" "sflz4_private_hash 0x65732065 = 0xDA9"
  "sflz4_private_hash 0x65732073 = 0x81A" "sflz4_private_hash 0x65732079 = 0x36F"
  "sflz4_private_hash 0x6669206F = 0xF8D" "sflz4_private_hash 0x68540A2E = 0x6EC"
  "sflz4_private_hash 0x68732061 = 0x74B" "sflz4_private_hash 0x68732065 = 0xED9"
  "sflz4_private_hash 0x68732066 = 0x8BD" "sflz4_private_hash 0x68732073 = 0x94A"
  "sflz4_private_hash 0x68736165 = 0x038" "sflz4_private_hash 0x6874206E = 0xF74"
  "sflz4_private_hash 0x68742079 = 0xC3A" "sflz4_private_hash 0x69206F53 = 0x28E"
  "sflz4_private_hash 0x6C656873 = 0x4B3" "sflz4_private_hash 0x6C657275 = 0xB26"
  "sflz4_private_hash 0x6C657320 = 0x616" "sflz4_private_hash 0x6C6C6568 = 0x2C3"
  "sflz4_private_hash 0x6C6C6573 = 0xF89" "sflz4_private_hash 0x6D27490A = 0xE6D"
  "sflz4_private_hash 0x6E6F2073 = 0xD3E" "sflz4_private_hash 0x6F20736C = 0xA03"
  "sflz4_private_hash 0x6F530A2E = 0xCC1" "sflz4_private_hash 0x6F687320 = 0xE18"
  "sflz4_private_hash 0x6F687361 = 0x0D9" "sflz4_private_hash 0x72612073 = 0xF03"
  "sflz4_private_hash 0x726F6873 = 0x321" "sflz4_private_hash 0x72757320 = 0x227"
  "sflz4_private_hash 0x73206165 = 0x2A1" "sflz4_private_hash 0x73206568 = 0xE2A"
  "sflz4_private_hash 0x73206572 = 0x10D" "sflz4_private_hash 0x73206669 = 0xB85"
  "sflz4_private_hash 0x73206D27 = 0x726" "sflz4_private_hash 0x7320736C = 0x643"
  "sflz4_private_hash 0x7320796C = 0xB10" "sflz4_private_hash 0x73616573 = 0x94F"
  "sflz4_private_hash 0x736C6C65 = 0xACE" "sflz4_private_hash 0x74206E6F = 0xDA7"
  "sflz4_private_hash 0x74207962 = 0x33E" "sflz4_private_hash 0x75732065 = 0xEA9"
  "sflz4_private_hash 0x7573206D = 0xDC5" "sflz4_private_hash 0x79622073 = 0x40E"
  "sflz4_private_hash 0x796C6572 = 0x576"
  by (simp_all add: sflz4_private_hash_def SFLZ4_HASH_TABLE_SHIFT_def)

lemma unat_hash_ssss:
  "unat (0x038 :: u32) = 56" "unat (0x06C :: u32) = 108" "unat (0x0D9 :: u32) = 217"
  "unat (0x0E5 :: u32) = 229" "unat (0x10D :: u32) = 269" "unat (0x1F1 :: u32) = 497"
  "unat (0x1F8 :: u32) = 504" "unat (0x227 :: u32) = 551" "unat (0x239 :: u32) = 569"
  "unat (0x245 :: u32) = 581" "unat (0x266 :: u32) = 614" "unat (0x28E :: u32) = 654"
  "unat (0x2A1 :: u32) = 673" "unat (0x2C2 :: u32) = 706" "unat (0x2C3 :: u32) = 707"
  "unat (0x2EB :: u32) = 747" "unat (0x2EF :: u32) = 751" "unat (0x31F :: u32) = 799"
  "unat (0x321 :: u32) = 801" "unat (0x33E :: u32) = 830" "unat (0x36F :: u32) = 879"
  "unat (0x38A :: u32) = 906" "unat (0x3EC :: u32) = 1004" "unat (0x40E :: u32) = 1038"
  "unat (0x4B3 :: u32) = 1203" "unat (0x576 :: u32) = 1398" "unat (0x5A1 :: u32) = 1441"
  "unat (0x5D6 :: u32) = 1494" "unat (0x616 :: u32) = 1558" "unat (0x643 :: u32) = 1603"
  "unat (0x6EC :: u32) = 1772" "unat (0x711 :: u32) = 1809" "unat (0x726 :: u32) = 1830"
  "unat (0x72D :: u32) = 1837" "unat (0x735 :: u32) = 1845" "unat (0x74B :: u32) = 1867"
  "unat (0x77E :: u32) = 1918" "unat (0x81A :: u32) = 2074" "unat (0x81B :: u32) = 2075"
  "unat (0x8BD :: u32) = 2237" "unat (0x94A :: u32) = 2378" "unat (0x94F :: u32) = 2383"
  "unat (0x967 :: u32) = 2407" "unat (0x9F4 :: u32) = 2548" "unat (0xA03 :: u32) = 2563"
  "unat (0xA33 :: u32) = 2611" "unat (0xA70 :: u32) = 2672" "unat (0xA82 :: u32) = 2690"
  "unat (0xACE :: u32) = 2766" "unat (0xB10 :: u32) = 2832" "unat (0xB26 :: u32) = 2854"
  "unat (0xB85 :: u32) = 2949" "unat (0xBD1 :: u32) = 3025" "unat (0xBF3 :: u32) = 3059"
  "unat (0xC3A :: u32) = 3130" "unat (0xC66 :: u32) = 3174" "unat (0xCA0 :: u32) = 3232"
  "unat (0xCC1 :: u32) = 3265" "unat (0xD1D :: u32) = 3357" "unat (0xD3E :: u32) = 3390"
  "unat (0xDA7 :: u32) = 3495" "unat (0xDA9 :: u32) = 3497" "unat (0xDC5 :: u32) = 3525"
  "unat (0xE18 :: u32) = 3608" "unat (0xE2A :: u32) = 3626" "unat (0xE6D :: u32) = 3693"
  "unat (0xEA9 :: u32) = 3753" "unat (0xED9 :: u32) = 3801" "unat (0xF03 :: u32) = 3843"
  "unat (0xF14 :: u32) = 3860" "unat (0xF23 :: u32) = 3875" "unat (0xF74 :: u32) = 3956"
  "unat (0xF78 :: u32) = 3960" "unat (0xF84 :: u32) = 3972" "unat (0xF89 :: u32) = 3977"
  "unat (0xF8D :: u32) = 3981"
  by simp_all

text \<open>
  For the evaluation of the encoder: a hash table that was updated finitely often, as the
  list of its updates, the latest first, with the keys as natural numbers; and the bytes
  \<open>xs ! k, ..., xs ! (k + n - 1)\<close> of a list.
\<close>

fun ht_lookup :: "(nat \<times> u32) list \<Rightarrow> nat \<Rightarrow> u32" where
  "ht_lookup [] n = 0"
| "ht_lookup ((a, v) # al) n = (if n = a then v else ht_lookup al n)"

definition ht_of :: "(nat \<times> u32) list \<Rightarrow> u32 \<Rightarrow> u32" where
  "ht_of al k = ht_lookup al (unat k)"

lemma ht_of_Nil: "(\<lambda>_. 0) = ht_of []"
  by (simp add: ht_of_def fun_eq_iff)

lemma ht_of_upd: "(ht_of al)(k := v) = ht_of ((unat k, v) # al)"
  by (auto simp: ht_of_def fun_eq_iff word_unat_eq_iff)

fun slice :: "'a list \<Rightarrow> nat \<Rightarrow> nat \<Rightarrow> 'a list" where
  "slice xs k 0 = []"
| "slice xs k (Suc n) = xs ! k # slice xs (Suc k) n"

lemma take_drop_slice: "k + n \<le> length xs \<Longrightarrow> take n (drop k xs) = slice xs k n"
proof (induction n arbitrary: k)
  case 0
  then show ?case by simp
next
  case (Suc n)
  then have "k < length xs" by simp
  then have "drop k xs = xs ! k # drop (Suc k) xs" by (simp add: Cons_nth_drop_Suc)
  with Suc show ?case by simp
qed

lemma slice_numeral: "slice xs k (numeral n) = xs ! k # slice xs (k + 1) (pred_numeral n)"
  by (simp add: numeral_eq_Suc)

lemma take_drop_ssss:
  "take n (drop k ssss) = (if k + n \<le> 158 then slice ssss k n else take n (drop k ssss))"
  by (simp add: take_drop_slice length_ssss)

lemma take_ssss: "take n ssss = (if n \<le> 158 then slice ssss 0 n else take n ssss)"
  using take_drop_slice [of 0 n ssss] by (simp add: length_ssss)

lemma encode_ssss: "sflz4_block_encode 200 ssss = Inr ssss_encoded"
  apply (simp add: encode_entry_unfold length_ssss ht_of_Nil)
  apply (simp add: enc_eval length_ssss ssss_nth ssss_nth_Suc0 peek_ssss peek_ssss_Suc0
      hash_ssss unat_hash_ssss ht_of_upd ht_of_def take_drop_ssss take_ssss slice_numeral
      list_update_Cons_numeral ssss_encoded_def numeral_2_eq_2 [symmetric]
      split del: if_split)
  done

lemma ssss_text:
  "ssss = map (\<lambda>c. of_nat (of_char c))
     (''She sells sea shells by the sea shore.'' @ [CHR 0x0A] @
      ''The shells she sells are surely seashells.'' @ [CHR 0x0A] @
      ''So if she sells shells on the seashore,'' @ [CHR 0x0A] @
      ''I'' @ [CHR 0x27] @ ''m sure she sells seashore shells.'' @ [CHR 0x0A])"
  by (simp add: ssss_def)

lemma ssss_not_Nil: "ssss \<noteq> []"
  using length_ssss by auto

lemma length_ssss_encoded: "length ssss_encoded = 114"
  by (simp add: ssss_encoded_def)

text \<open>
  Claim C9: \<open>sflz4_block_encode\<close> of the 158 bytes of the text, with a destination of at
  least the worst-case capacity (174 bytes), writes exactly the 114 bytes \<open>ssss_encoded\<close>,
  and \<open>sflz4_block_decode\<close> of these 114 bytes, with a destination of at least 158 bytes,
  succeeds, returns 158 and leaves the text in the first 158 bytes of the destination.
\<close>

theorem C9_she_sells_sea_shells:
  "length ssss = 158 \<and> length ssss_encoded = 114 \<and>
   sflz4_block_encode_worst_case_dst_len (length ssss) = Inr 174 \<and>
   (174 \<le> dst_cap \<longrightarrow> sflz4_block_encode dst_cap ssss = Inr ssss_encoded) \<and>
   (158 \<le> length dst_buf \<longrightarrow>
      (\<exists>d'. sflz4_block_decode dst_buf ssss_encoded = (Inr 158, d') \<and> take 158 d' = ssss))"
proof -
  have e: "sflz4_block_encode dst_cap ssss = Inr ssss_encoded" if "174 \<le> dst_cap" for dst_cap
    using encode_ssss that by (simp add: sflz4_block_encode_eq length_ssss)
  have d: "\<exists>d'. sflz4_block_decode dst_buf ssss_encoded = (Inr 158, d') \<and> take 158 d' = ssss"
    if "158 \<le> length dst_buf"
    using round_trip [OF encode_ssss ssss_not_Nil, of dst_buf] that
    by (auto simp: length_ssss length_ssss_encoded)
  have w: "sflz4_block_encode_worst_case_dst_len (length ssss) = Inr 174"
    by (simp add: sflz4_block_encode_worst_case_dst_len_def
          SFLZ4_LZ4_BLOCK_ENCODE_MAX_INCL_SRC_LEN_def length_ssss)
  from e d w show ?thesis by (simp add: length_ssss length_ssss_encoded)
qed

theorem C9_she_sells_sea_shells_witness:
  "sflz4_block_encode 174 ssss = Inr ssss_encoded \<and>
   (\<exists>d'. sflz4_block_decode (replicate 158 0x00) ssss_encoded = (Inr 158, d') \<and>
         take 158 d' = ssss)"
  using C9_she_sells_sea_shells [of 174 "replicate 158 0x00"] by simp

end
